theory Spec2Isabelle
  imports Main "HOL-Library.Word"
begin

unbundle bit_operations_syntax

section \<open>Colours and pixel grids\<close>

text \<open>
  The program hides bytes in the least-significant bits of the red, green and blue
  channels of an image. This first part embeds \<^verbatim>\<open>image_hidden_data.go\<close> (colours,
  the byte writer over an image, the extraction of the hidden bytes) and
  \<^verbatim>\<open>bitwriter.go\<close>.
\<close>

type_synonym byte = "8 word"

text \<open>A pixel as the image stores it: four 8-bit channels R, G, B, A.\<close>

type_synonym quad = "byte \<times> byte \<times> byte \<times> byte"

text \<open>
  \<^verbatim>\<open>color.Color\<close> is an interface. The two implementations the program accepts are
  \<^verbatim>\<open>color.RGBA\<close> and \<^verbatim>\<open>color.NRGBA\<close>; every other implementation is \<open>OtherColor\<close>.
\<close>

datatype color =
    RGBA (cR: byte) (cG: byte) (cB: byte) (cA: byte)
  | NRGBA (cR: byte) (cG: byte) (cB: byte) (cA: byte)
  | OtherColor

datatype cmodel = RGBAModel | NRGBAModel | OtherModel

datatype error =
    ExpectedRGB               \<comment> \<open>"expected a RGB image" (NewImageByteWriter)\<close>
  | ExpectedRGBA              \<comment> \<open>"expected a RGBA image" (GetHiddenBytesFromImage)\<close>
  | PanicUnsupportedColor     \<comment> \<open>panic("unsupported color scheme")\<close>
  | PanicSliceBounds          \<comment> \<open>run-time panic: slice bounds out of range\<close>
  | PanicIndex                \<comment> \<open>run-time panic: index out of range\<close>
  | PanicDivideByZero         \<comment> \<open>run-time panic: integer divide by zero\<close>
  | EOF                       \<comment> \<open>io.EOF\<close>
  | ErrUnexpectedEOF          \<comment> \<open>io.ErrUnexpectedEOF\<close>
  | UnknownWhence             \<comment> \<open>"unknown seek whence"\<close>
  | InvalidDataSize           \<comment> \<open>"invalid data size"\<close>
  | CapacityTooSmall int int  \<comment> \<open>"image capacity is too small", required and capacity\<close>
  | WriteFailed int error     \<comment> \<open>"failed to write hidden data to the image"\<close>
  | DataLengthZero            \<comment> \<open>"data length is zero"\<close>
  | LengthTooLarge            \<comment> \<open>"length is too large"\<close>
  | HashVerificationFailed    \<comment> \<open>"data hash verification failed"\<close>
  | HashCheckFailed           \<comment> \<open>"hash check failed" (encrypted mode)\<close>
  | CiphertextTooLarge        \<comment> \<open>"AES128 encrypted data is of size ..."\<close>
  | RSASizeMismatch           \<comment> \<open>"RSA data is of size ..., not of expected size"\<close>
  | CryptoError               \<comment> \<open>an error of the key loader or of a cipher primitive\<close>

text \<open>
  An image of the standard library: its colour model, its size (\<^verbatim>\<open>Bounds().Dx()\<close>,
  \<^verbatim>\<open>Bounds().Dy()\<close>, with the bounds starting at the origin as for every decoded
  file), and its pixels. \<open>Convert\<close> stands for the conversion the image's colour model
  applies in \<^verbatim>\<open>Set\<close> to a colour of another type; that library code is not part of
  the program and is never reached by it, since \<^verbatim>\<open>colorEmbed\<close> returns a colour of the
  type it was given.
\<close>

record image =
  ColorModel :: cmodel
  Dx :: nat
  Dy :: nat
  Pix :: "nat \<Rightarrow> nat \<Rightarrow> quad"
  Convert :: "color \<Rightarrow> quad"

definition in_bounds :: "image \<Rightarrow> int \<Rightarrow> int \<Rightarrow> bool" where
  "in_bounds im x y = (0 \<le> x \<and> x < int (Dx im) \<and> 0 \<le> y \<and> y < int (Dy im))"

fun wrap_color :: "cmodel \<Rightarrow> quad \<Rightarrow> color" where
  "wrap_color RGBAModel (r, g, b, a) = RGBA r g b a"
| "wrap_color NRGBAModel (r, g, b, a) = NRGBA r g b a"
| "wrap_color OtherModel q = OtherColor"

text \<open>\<^verbatim>\<open>At\<close>: the colour of a pixel; outside the bounds the zero colour of the model.\<close>

definition At :: "image \<Rightarrow> int \<Rightarrow> int \<Rightarrow> color" where
  "At im x y =
     (if in_bounds im x y then wrap_color (ColorModel im) (Pix im (nat x) (nat y))
      else wrap_color (ColorModel im) (0, 0, 0, 0))"

text \<open>
  The colour model's conversion: a colour that already has the model's type is returned
  as it is.
\<close>

fun model_convert :: "image \<Rightarrow> color \<Rightarrow> quad" where
  "model_convert im (RGBA r g b a) =
     (if ColorModel im = RGBAModel then (r, g, b, a) else Convert im (RGBA r g b a))"
| "model_convert im (NRGBA r g b a) =
     (if ColorModel im = NRGBAModel then (r, g, b, a) else Convert im (NRGBA r g b a))"
| "model_convert im OtherColor = Convert im OtherColor"

text \<open>\<^verbatim>\<open>Set\<close>: nothing happens outside the bounds.\<close>

definition Set :: "image \<Rightarrow> int \<Rightarrow> int \<Rightarrow> color \<Rightarrow> image" where
  "Set im x y c =
     (if in_bounds im x y
      then im\<lparr>Pix := (Pix im)(nat x := (Pix im (nat x))(nat y := model_convert im c))\<rparr>
      else im)"

subsection \<open>Embedding one bit\<close>

text \<open>\<^verbatim>\<open>bitEmbed\<close>: set the last bit of a byte to the value.\<close>

definition bitEmbed :: "byte \<Rightarrow> bool \<Rightarrow> byte" where
  "bitEmbed b bitv = (if bitv then b OR 1 else b AND (NOT 1))"

fun colorToRGBA :: "color \<Rightarrow> error + color" where
  "colorToRGBA (RGBA r g b a) = Inr (RGBA r g b a)"
| "colorToRGBA (NRGBA r g b a) = Inr (RGBA r g b a)"
| "colorToRGBA OtherColor = Inl PanicUnsupportedColor"

text \<open>
  \<^verbatim>\<open>colorEmbed\<close>: a position other than 0, 1, 2 prints a message and returns the copy
  of the colour unchanged.
\<close>

fun colorEmbed :: "color \<Rightarrow> int \<Rightarrow> bool \<Rightarrow> error + color" where
  "colorEmbed (RGBA r g b a) pos bitv =
     (if pos = 0 then Inr (RGBA (bitEmbed r bitv) g b a)
      else if pos = 1 then Inr (RGBA r (bitEmbed g bitv) b a)
      else if pos = 2 then Inr (RGBA r g (bitEmbed b bitv) a)
      else Inr (RGBA r g b a))"
| "colorEmbed (NRGBA r g b a) pos bitv =
     (if pos = 0 then Inr (NRGBA (bitEmbed r bitv) g b a)
      else if pos = 1 then Inr (NRGBA r (bitEmbed g bitv) b a)
      else if pos = 2 then Inr (NRGBA r g (bitEmbed b bitv) a)
      else Inr (NRGBA r g b a))"
| "colorEmbed OtherColor pos bitv = Inl PanicUnsupportedColor"

section \<open>The bit writer\<close>

text \<open>
  \<^verbatim>\<open>BitWriter\<close> of \<^verbatim>\<open>bitwriter.go\<close>. The inner writer is a \<^verbatim>\<open>bytes.Buffer\<close>, whose
  \<^verbatim>\<open>Write\<close> appends and always returns a nil error, so \<^verbatim>\<open>WriteBit\<close> and \<^verbatim>\<open>Flush\<close>
  return the new state only.
\<close>

record BitWriter =
  bw_inner :: "byte list"
  bw_currentByte :: byte
  bw_currentPos :: nat

definition NewBitWriter :: "byte list \<Rightarrow> BitWriter" where
  "NewBitWriter buf = \<lparr>bw_inner = buf, bw_currentByte = 0, bw_currentPos = 0\<rparr>"

definition Flush :: "BitWriter \<Rightarrow> BitWriter" where
  "Flush bw = \<lparr>bw_inner = bw_inner bw @ [bw_currentByte bw],
               bw_currentByte = 0, bw_currentPos = 0\<rparr>"

definition WriteBit :: "BitWriter \<Rightarrow> bool \<Rightarrow> BitWriter" where
  "WriteBit bw bitv =
     (let bw1 = (if bitv
                 then bw\<lparr>bw_currentByte := bw_currentByte bw OR push_bit (bw_currentPos bw) 1\<rparr>
                 else bw);
          bw2 = bw1\<lparr>bw_currentPos := bw_currentPos bw1 + 1\<rparr>
      in if bw_currentPos bw2 \<ge> 8 then Flush bw2 else bw2)"

section \<open>Extracting the hidden bytes\<close>

text \<open>The body of the two nested loops: the three channel bits of one pixel.\<close>

definition read_pixel :: "image \<Rightarrow> nat \<Rightarrow> nat \<Rightarrow> BitWriter \<Rightarrow> error + BitWriter" where
  "read_pixel im j i bw =
     (case colorToRGBA (At im (int i) (int j)) of
        Inl e \<Rightarrow> Inl e
      | Inr c \<Rightarrow>
          Inr (WriteBit (WriteBit (WriteBit bw ((cR c AND 1) \<noteq> 0)) ((cG c AND 1) \<noteq> 0))
                 ((cB c AND 1) \<noteq> 0)))"

text \<open>A \<^verbatim>\<open>for\<close> loop over the given indices whose body may fail.\<close>

primrec for_each :: "'a list \<Rightarrow> ('a \<Rightarrow> 's \<Rightarrow> error + 's) \<Rightarrow> 's \<Rightarrow> error + 's" where
  "for_each [] body s = Inr s"
| "for_each (x # xs) body s =
     (case body x s of Inl e \<Rightarrow> Inl e | Inr s' \<Rightarrow> for_each xs body s')"

definition GetHiddenBytesFromImage :: "image \<Rightarrow> error + byte list" where
  "GetHiddenBytesFromImage im =
     (if ColorModel im \<noteq> RGBAModel \<and> ColorModel im \<noteq> NRGBAModel then Inl ExpectedRGBA
      else
        case for_each [0..<Dy im] (\<lambda>j. for_each [0..<Dx im] (read_pixel im j))
               (NewBitWriter [])
        of Inl e \<Rightarrow> Inl e
         | Inr bw \<Rightarrow> Inr (bw_inner bw))"

section \<open>The byte writer over an image\<close>

record ImageByteWriter =
  ibw_im :: image
  currentX :: int
  currentY :: int
  currentRGB :: int
  currentByte :: int
  ibw_w :: int
  ibw_h :: int
  capacity :: int

text \<open>
  Go's \<^verbatim>\<open>int\<close> and \<^verbatim>\<open>int64\<close> are 64-bit two's complement: \<^verbatim>\<open>+\<close> and \<^verbatim>\<open>*\<close> wrap
  around silently. \<open>go_int\<close> is the value a 64-bit integer holds for a mathematical
  result. The writer's fields are kept as \<open>int\<close>. The products and sums that take the
  size of the image or the caller's offset (the capacity, \<^verbatim>\<open>BitPos\<close>, \<^verbatim>\<open>Seek\<close>) are
  wrapped where the source computes them. The cursor's increments and the count of
  bytes written are not: the source resets or stops them at the channel count, the
  width, the height and the capacity, which are \<^verbatim>\<open>int\<close> values.
\<close>

definition go_int :: "int \<Rightarrow> int" where
  "go_int x = sint (word_of_int x :: 64 word)"

text \<open>
  Go's \<^verbatim>\<open>/\<close> and \<^verbatim>\<open>%\<close> on \<^verbatim>\<open>int\<close> truncate towards zero, and panic on a zero
  divisor (checked where they are used).
\<close>

definition go_div :: "int \<Rightarrow> int \<Rightarrow> int" where
  "go_div a b = sgn a * sgn b * (\<bar>a\<bar> div \<bar>b\<bar>)"


text \<open>
  \<^verbatim>\<open>NewImageByteWriter\<close>: \<^verbatim>\<open>ibw.capacity = ibw.w * ibw.h * 3 / 8\<close>, evaluated from the left
  in \<^verbatim>\<open>int\<close>: both products wrap, then the quotient truncates. The width and the height
  are themselves \<^verbatim>\<open>int\<close> values (\<^verbatim>\<open>Bounds().Dx()\<close>, \<^verbatim>\<open>Bounds().Dy()\<close>).
\<close>

definition NewImageByteWriter :: "image \<Rightarrow> error + ImageByteWriter" where
  "NewImageByteWriter im =
     (if ColorModel im \<noteq> RGBAModel \<and> ColorModel im \<noteq> NRGBAModel then Inl ExpectedRGB
      else Inr \<lparr>ibw_im = im, currentX = 0, currentY = 0, currentRGB = 0, currentByte = 0,
                ibw_w = int (Dx im), ibw_h = int (Dy im),
                capacity = go_div (go_int (go_int (int (Dx im) * int (Dy im)) * 3)) 8\<rparr>)"

definition Capacity :: "ImageByteWriter \<Rightarrow> int" where
  "Capacity ibw = capacity ibw"

definition increment :: "ImageByteWriter \<Rightarrow> bool \<times> ImageByteWriter" where
  "increment ibw =
     (if currentY ibw \<ge> ibw_h ibw then (True, ibw)
      else
        let ibw1 = ibw\<lparr>currentRGB := currentRGB ibw + 1\<rparr>
        in if currentRGB ibw1 > 2
           then
             let ibw2 = ibw1\<lparr>currentRGB := 0, currentX := currentX ibw1 + 1\<rparr>
             in if currentX ibw2 \<ge> ibw_w ibw2
                then (False, ibw2\<lparr>currentX := 0, currentY := currentY ibw2 + 1\<rparr>)
                else (False, ibw2)
           else (False, ibw1))"

text \<open>
  One pass of the loop body of \<^verbatim>\<open>writeByte\<close> up to the call of \<^verbatim>\<open>increment\<close>: read
  the pixel under the cursor, embed the bit, store the pixel.
\<close>

definition embed_at_cursor :: "ImageByteWriter \<Rightarrow> bool \<Rightarrow> error + ImageByteWriter" where
  "embed_at_cursor ibw bitv =
     (case colorEmbed (At (ibw_im ibw) (currentX ibw) (currentY ibw)) (currentRGB ibw) bitv of
        Inl e \<Rightarrow> Inl e
      | Inr c \<Rightarrow> Inr (ibw\<lparr>ibw_im := Set (ibw_im ibw) (currentX ibw) (currentY ibw) c\<rparr>))"

text \<open>
  The loop of \<^verbatim>\<open>writeByte\<close> over the bit positions. The result is the error (if any)
  and the writer as the call leaves it.
\<close>

primrec writeByte_loop :: "nat list \<Rightarrow> byte \<Rightarrow> ImageByteWriter \<Rightarrow> error option \<times> ImageByteWriter"
  where
  "writeByte_loop [] data ibw = (None, ibw)"
| "writeByte_loop (i # is) data ibw =
     (case embed_at_cursor ibw ((data AND push_bit i 1) \<noteq> 0) of
        Inl e \<Rightarrow> (Some e, ibw)
      | Inr ibw1 \<Rightarrow>
          (case increment ibw1 of
             (True, ibw2) \<Rightarrow> (Some ErrUnexpectedEOF, ibw2)
           | (False, ibw2) \<Rightarrow> writeByte_loop is data ibw2))"

definition writeByte :: "ImageByteWriter \<Rightarrow> byte \<Rightarrow> error option \<times> ImageByteWriter" where
  "writeByte ibw data =
     (if capacity ibw \<le> currentByte ibw then (Some ErrUnexpectedEOF, ibw)
      else writeByte_loop [0..<8] data ibw)"

text \<open>
  The loop of \<^verbatim>\<open>Write\<close>: \<open>i\<close> counts the bytes written so far in this call.
\<close>

primrec Write_loop :: "byte list \<Rightarrow> int \<Rightarrow> ImageByteWriter \<Rightarrow> (int \<times> error option) \<times> ImageByteWriter"
  where
  "Write_loop [] i ibw = ((i, None), ibw)"
| "Write_loop (b # bs) i ibw =
     (case writeByte ibw b of
        (Some e2, ibw1) \<Rightarrow> ((i, Some e2), ibw1)
      | (None, ibw1) \<Rightarrow> Write_loop bs (i + 1) (ibw1\<lparr>currentByte := currentByte ibw1 + 1\<rparr>))"

text \<open>
  \<^verbatim>\<open>Write\<close>. A negative remaining capacity makes the slice expression
  \<^verbatim>\<open>data[:(ibw.capacity - ibw.currentByte)]\<close> panic.
\<close>

definition Write :: "ImageByteWriter \<Rightarrow> byte list \<Rightarrow> (int \<times> error option) \<times> ImageByteWriter"
  where
  "Write ibw data =
     (if capacity ibw - currentByte ibw < int (length data)
      then
        if capacity ibw - currentByte ibw < 0 then ((0, Some PanicSliceBounds), ibw)
        else
          let data1 = take (nat (capacity ibw - currentByte ibw)) data
          in (case Write_loop data1 0 ibw of
                ((i, Some e2), ibw1) \<Rightarrow> ((i, Some e2), ibw1)
              | ((i, None), ibw1) \<Rightarrow> ((int (length data1), Some EOF), ibw1))
      else
        (case Write_loop data 0 ibw of
           ((i, Some e2), ibw1) \<Rightarrow> ((i, Some e2), ibw1)
         | ((i, None), ibw1) \<Rightarrow> ((int (length data), None), ibw1)))"





section \<open>What the program takes from outside\<close>

text \<open>
  The standard library's hash and pseudo-random generator, the cipher primitives, the
  key files, the entropy source and the clock are not part of the program. They are
  parameters of the model, collected in one record; the theorems hold for every value
  of it (where one is needed, under the library's documented contract).
  \<^item> \<open>Sum256\<close>: \<^verbatim>\<open>sha256.Sum256\<close>. Its result is a \<^verbatim>\<open>[32]byte\<close>, held here as the
    256-bit number the 32 bytes spell big-endian.
  \<^item> \<open>NewSource\<close>, \<open>Intn\<close>: \<^verbatim>\<open>rand.New(rand.NewSource(seed))\<close> from the bit pattern of
    the \<^verbatim>\<open>int64\<close> seed, and one draw below a bound, with the generator's next state.
  \<^item> \<open>Overhead\<close>: \<^verbatim>\<open>calculateRSAOverhead\<close>, which only asks the library for the
    overhead of AES-GCM.
  \<^item> \<open>randKey\<close>, \<open>randNonce\<close>: the 32 and 12 bytes read from \<^verbatim>\<open>rand.Reader\<close>, held
    as numbers like the hash; \<open>now\<close>: \<^verbatim>\<open>time.Now().Unix()\<close>.
  \<^item> \<open>Seal\<close>: \<^verbatim>\<open>gcm.Seal\<close> for a key, a nonce and a plaintext (ciphertext and tag).
  \<^item> \<open>LoadRSAPublicKey\<close>, \<open>EncryptPKCS1v15\<close>: the key loader and RSA encryption.
  \<^item> \<open>decryptDataWithRSA\<close>: the whole decryption of an encrypted envelope (plain data
    and the hash of the tail), which no statement below looks into.
\<close>

record ('g, 'k) outside =
  Sum256 :: "byte list \<Rightarrow> 256 word"
  NewSource :: "64 word \<Rightarrow> 'g"
  Intn :: "'g \<Rightarrow> nat \<Rightarrow> nat \<times> 'g"
  Overhead :: "error + int"
  randKey :: "256 word"
  randNonce :: "96 word"
  now :: "64 word"
  Seal :: "byte list \<Rightarrow> byte list \<Rightarrow> byte list \<Rightarrow> byte list"
  LoadRSAPublicKey :: "string \<Rightarrow> error + 'k"
  EncryptPKCS1v15 :: "'k \<Rightarrow> byte list \<Rightarrow> error + byte list"
  decryptDataWithRSA :: "string \<Rightarrow> byte list \<Rightarrow> byte list \<Rightarrow> error + (byte list \<times> byte list)"

text \<open>The \<open>n\<close> bytes that spell a number big-endian; the 32 bytes of a hash.\<close>

definition be_bytes :: "nat \<Rightarrow> 'a::len word \<Rightarrow> byte list" where
  "be_bytes n v = map (\<lambda>i. ucast (drop_bit (8 * (n - 1 - i)) v)) [0..<n]"

definition sum_bytes :: "256 word \<Rightarrow> byte list" where
  "sum_bytes h = be_bytes 32 h"

text \<open>
  Modelled from the spec: \<^verbatim>\<open>gcm.NonceSize()\<close> is a constant of the standard library,
  missing from the source; the spec gives the GCM nonce 12 bytes.
\<close>

definition nonceSize :: nat where
  "nonceSize = 12"

text \<open>\<^verbatim>\<open>[]byte(s)\<close> for a string.\<close>

definition string_bytes :: "string \<Rightarrow> byte list" where
  "string_bytes s = map (\<lambda>c. of_nat (of_char c)) s"

subsection \<open>Big-endian integers (\<^verbatim>\<open>encoding/binary\<close>)\<close>

definition Uint32 :: "byte list \<Rightarrow> error + 32 word" where
  "Uint32 b =
     (if length b < 4 then Inl PanicIndex
      else Inr (ucast (b ! 3) OR push_bit 8 (ucast (b ! 2)) OR push_bit 16 (ucast (b ! 1))
                OR push_bit 24 (ucast (b ! 0))))"

definition PutUint32 :: "32 word \<Rightarrow> byte list" where
  "PutUint32 v = [ucast (drop_bit 24 v), ucast (drop_bit 16 v), ucast (drop_bit 8 v), ucast v]"

definition Uint64 :: "byte list \<Rightarrow> error + 64 word" where
  "Uint64 b =
     (if length b < 8 then Inl PanicIndex
      else Inr (ucast (b ! 7) OR push_bit 8 (ucast (b ! 6)) OR push_bit 16 (ucast (b ! 5))
                OR push_bit 24 (ucast (b ! 4)) OR push_bit 32 (ucast (b ! 3))
                OR push_bit 40 (ucast (b ! 2)) OR push_bit 48 (ucast (b ! 1))
                OR push_bit 56 (ucast (b ! 0))))"

definition PutUint64 :: "64 word \<Rightarrow> byte list" where
  "PutUint64 v = [ucast (drop_bit 56 v), ucast (drop_bit 48 v), ucast (drop_bit 40 v),
                  ucast (drop_bit 32 v), ucast (drop_bit 24 v), ucast (drop_bit 16 v),
                  ucast (drop_bit 8 v), ucast v]"

text \<open>
  A slice expression \<^verbatim>\<open>b[lo:hi]\<close> panics unless \<open>0 \<le> lo \<le> hi \<le> len(b)\<close>.
\<close>

definition slice :: "'a list \<Rightarrow> int \<Rightarrow> int \<Rightarrow> error + 'a list" where
  "slice b lo hi =
     (if 0 \<le> lo \<and> lo \<le> hi \<and> hi \<le> int (length b)
      then Inr (take (nat (hi - lo)) (drop (nat lo) b))
      else Inl PanicSliceBounds)"

text \<open>
  \<^verbatim>\<open>copy(b[pos:], src)\<close> for \<open>0 \<le> pos \<le> len(b)\<close>: as many elements as fit.
\<close>

definition copy_at :: "'a list \<Rightarrow> nat \<Rightarrow> 'a list \<Rightarrow> 'a list" where
  "copy_at b pos src = take pos b @ take (length b - pos) src @ drop (pos + length src) b"

section \<open>The permutation of the envelope\<close>

record Program =
  verbose :: bool
  doHash :: bool
  decode :: bool
  shuffleSeed :: string
  inputImage :: string
  dataFile :: string
  outputImage :: string
  keyFile :: string

text \<open>
  Modelled from the spec: \<^verbatim>\<open>rand.Shuffle\<close> belongs to the standard library and is
  missing from the source. The spec gives it as one Fisher-Yates pass: for \<open>i\<close> from
  \<open>n - 1\<close> down to \<open>1\<close>, draw \<open>j\<close> from \<open>[0, i]\<close> with the generator and call
  \<open>swap(i, j)\<close>. The callback may fail (an index out of range panics).
\<close>

primrec Shuffle_loop ::
  "('g, 'k) outside \<Rightarrow> nat \<Rightarrow> 'g \<Rightarrow> (nat \<Rightarrow> nat \<Rightarrow> 's \<Rightarrow> error + 's) \<Rightarrow> 's \<Rightarrow> error + 's" where
  "Shuffle_loop L 0 g swp s = Inr s"
| "Shuffle_loop L (Suc i) g swp s =
     (case Intn L g (Suc i + 1) of
        (j, g') \<Rightarrow>
          (case swp (Suc i) j s of
             Inl e \<Rightarrow> Inl e
           | Inr s' \<Rightarrow> Shuffle_loop L i g' swp s'))"

definition Shuffle ::
  "('g, 'k) outside \<Rightarrow> 'g \<Rightarrow> nat \<Rightarrow> (nat \<Rightarrow> nat \<Rightarrow> 's \<Rightarrow> error + 's) \<Rightarrow> 's \<Rightarrow> error + 's" where
  "Shuffle L g n swp s = Shuffle_loop L (n - 1) g swp s"

text \<open>
  The callbacks of the program: \<^verbatim>\<open>a[i], a[j] = a[j], a[i]\<close>, which panics on an index
  out of range.
\<close>

definition swap_elems :: "nat \<Rightarrow> nat \<Rightarrow> 'a list \<Rightarrow> error + 'a list" where
  "swap_elems i j xs =
     (if i < length xs \<and> j < length xs then Inr (xs[i := xs ! j, j := xs ! i])
      else Inl PanicIndex)"

text \<open>
  The seed of round \<open>i\<close>:
  \<^verbatim>\<open>int64(binary.BigEndian.Uint64(passwordHash[(i * 8) : (i*8)+8]))\<close>, as a bit pattern.
\<close>

definition round_seed :: "byte list \<Rightarrow> nat \<Rightarrow> error + 64 word" where
  "round_seed passwordHash i =
     (case slice passwordHash (int i * 8) (int i * 8 + 8) of
        Inl e \<Rightarrow> Inl e
      | Inr b \<Rightarrow> Uint64 b)"

text \<open>
  The loop \<^verbatim>\<open>for i := 0; i < 4; i++\<close> of both \<^verbatim>\<open>encodeImage\<close> and \<^verbatim>\<open>decodeImage\<close>:
  each round makes a generator from its seed and shuffles with the given callback.
\<close>

definition shuffle_round ::
  "('g, 'k) outside \<Rightarrow> byte list \<Rightarrow> nat \<Rightarrow> 'a list \<Rightarrow> error + 'a list" where
  "shuffle_round L passwordHash i xs =
     (case round_seed passwordHash i of
        Inl e \<Rightarrow> Inl e
      | Inr seed \<Rightarrow> Shuffle L (NewSource L seed) (length xs) swap_elems xs)"

definition shuffle_rounds :: "('g, 'k) outside \<Rightarrow> string \<Rightarrow> 'a list \<Rightarrow> error + 'a list" where
  "shuffle_rounds L seedString xs =
     for_each [0..<4] (shuffle_round L (sum_bytes (Sum256 L (string_bytes seedString)))) xs"

text \<open>The encoder shuffles the envelope itself.\<close>

definition encode_shuffle :: "('g, 'k) outside \<Rightarrow> string \<Rightarrow> byte list \<Rightarrow> error + byte list" where
  "encode_shuffle L seedString hiddenData = shuffle_rounds L seedString hiddenData"

text \<open>The decoder shuffles the index array \<open>0, 1, ..., n - 1\<close>.\<close>

definition decode_indexes :: "('g, 'k) outside \<Rightarrow> string \<Rightarrow> nat \<Rightarrow> error + nat list" where
  "decode_indexes L seedString n = shuffle_rounds L seedString [0..<n]"

text \<open>
  The inner \<^verbatim>\<open>for newidx != oldidx\<close> loop of the decoder. Nothing in the loop itself
  bounds the number of its rounds, so it is a partial function: \<open>None\<close> is a loop
  that never ends.
\<close>

partial_function (option) unshuffle_inner ::
  "nat \<Rightarrow> nat \<Rightarrow> byte list \<times> nat list \<Rightarrow> (error + byte list \<times> nat list) option" where
  "unshuffle_inner newidx oldidx s =
     (if newidx \<noteq> oldidx
      then
        (if newidx < length (fst s) \<and> oldidx < length (fst s) \<and>
            newidx < length (snd s) \<and> oldidx < length (snd s)
         then
           (let hiddenData = (fst s)[newidx := fst s ! oldidx, oldidx := fst s ! newidx];
                indexes = (snd s)[newidx := snd s ! oldidx, oldidx := snd s ! newidx]
            in unshuffle_inner newidx (indexes ! newidx) (hiddenData, indexes))
         else Some (Inl PanicIndex))
      else Some (Inr s))"

declare unshuffle_inner.simps [code]

text \<open>
  The outer \<^verbatim>\<open>for newidx, oldidx := range indexes\<close>: the slice is read at each round,
  so \<open>oldidx\<close> is the current entry.
\<close>

primrec unshuffle_outer ::
  "nat list \<Rightarrow> byte list \<times> nat list \<Rightarrow> (error + byte list \<times> nat list) option" where
  "unshuffle_outer [] s = Some (Inr s)"
| "unshuffle_outer (newidx # rest) s =
     (case unshuffle_inner newidx (snd s ! newidx) s of
        None \<Rightarrow> None
      | Some (Inl e) \<Rightarrow> Some (Inl e)
      | Some (Inr s') \<Rightarrow> unshuffle_outer rest s')"

definition unshuffle :: "('g, 'k) outside \<Rightarrow> string \<Rightarrow> byte list \<Rightarrow> (error + byte list) option"
  where
  "unshuffle L seedString hiddenData =
     (case decode_indexes L seedString (length hiddenData) of
        Inl e \<Rightarrow> Some (Inl e)
      | Inr indexes \<Rightarrow>
          (case unshuffle_outer [0..<length indexes] (hiddenData, indexes) of
             None \<Rightarrow> None
           | Some (Inl e) \<Rightarrow> Some (Inl e)
           | Some (Inr s) \<Rightarrow> Some (Inr (fst s))))"

section \<open>Encoding\<close>

definition HASH_SIZE :: int where "HASH_SIZE = 32"
definition FSIZE_LEN :: int where "FSIZE_LEN = 4"
definition TIMESTAMP_LEN :: int where "TIMESTAMP_LEN = 8"
definition RSA_SIZE :: int where "RSA_SIZE = 256"

text \<open>
  The payload, its length and (unless hashing is off) its hash go into the buffer
  extracted from the carrier (the lines from "copy data" to "hash" of \<^verbatim>\<open>encodeImage\<close>).
  The payload is the content of the data file, whose reads do not fail here.
\<close>

definition fill_envelope ::
  "('g, 'k) outside \<Rightarrow> Program \<Rightarrow> byte list \<Rightarrow> byte list \<Rightarrow> error + byte list" where
  "fill_envelope L p payload hiddenData =
     (let sz = int (length payload)
      in if sz > int (length hiddenData) then Inl PanicSliceBounds
         else
           let buf1 = copy_at hiddenData 0 payload;
               sizePos = int (length buf1) - HASH_SIZE - FSIZE_LEN
           in if sizePos < 0 then Inl PanicSliceBounds
              else
                let buf2 = copy_at buf1 (nat sizePos) (PutUint32 (word_of_int sz));
                    hashPos = int (length buf2) - HASH_SIZE;
                    buf3 = (if doHash p
                            then copy_at buf2 (nat hashPos)
                                   (sum_bytes (Sum256 L (take (nat sz) buf2)))
                            else buf2)
                in Inr buf3)"

text \<open>
  \<^verbatim>\<open>encodeImage\<close> up to the encryption: the writer, the size checks, the extraction
  of the bytes the carrier holds, and the filling of the buffer. The result is the
  writer, the overhead and the buffer \<^verbatim>\<open>hiddenData\<close>. Every image of the model has
  \<^verbatim>\<open>Set\<close>, so the type assertion to \<^verbatim>\<open>WritableImage\<close> succeeds; the size of the data
  file is the length of the payload, and seeking in the file does not fail.
\<close>

definition encode_envelope ::
  "('g, 'k) outside \<Rightarrow> Program \<Rightarrow> image \<Rightarrow> byte list \<Rightarrow> error + (ImageByteWriter \<times> int \<times> byte list)"
  where
  "encode_envelope L p im payload =
     (case NewImageByteWriter im of
        Inl e \<Rightarrow> Inl e
      | Inr ibw \<Rightarrow>
          let sz = int (length payload)
          in if sz < 0 \<or> sz > 4294967295 then Inl InvalidDataSize
             else
               (case (if keyFile p \<noteq> []
                      then (case Overhead L of
                              Inl e \<Rightarrow> Inl e
                            | Inr ov \<Rightarrow> Inr (ov, sz + ov + RSA_SIZE))
                      else Inr (0, sz + HASH_SIZE + FSIZE_LEN))
                of Inl e \<Rightarrow> Inl e
                 | Inr (overhead, required) \<Rightarrow>
                     if Capacity ibw < required
                     then Inl (CapacityTooSmall required (Capacity ibw))
                     else
                       (case GetHiddenBytesFromImage im of
                          Inl e \<Rightarrow> Inl e
                        | Inr hiddenData \<Rightarrow>
                            (case fill_envelope L p payload hiddenData of
                               Inl e \<Rightarrow> Inl e
                             | Inr buf \<Rightarrow> Inr (ibw, overhead, buf)))))"

text \<open>
  The message \<^verbatim>\<open>encryptDataWithRSA\<close> hands to RSA:
  \<open>[key, nonce, timestamp, extension, length, hash]\<close>.
\<close>

definition rsaData_of ::
  "('g, 'k) outside \<Rightarrow> byte list \<Rightarrow> string \<Rightarrow> byte list \<Rightarrow> byte list" where
  "rsaData_of L aesNonce extension hashAndLength =
     be_bytes 32 (randKey L) @ aesNonce @ PutUint64 (now L)
       @ copy_at (replicate 16 0) 0 (string_bytes extension) @ hashAndLength"

text \<open>
  \<^verbatim>\<open>encryptDataWithRSA\<close> after the key is loaded and before RSA encrypts: the key and
  the nonce, the sealing, and the message for RSA. \<^verbatim>\<open>hashAndLength\<close> is a slice of the
  caller's buffer, and the function writes the ciphertext length into its first four
  bytes: the third component of the result is the slice as the call leaves it.
\<close>

definition prepare_rsaData ::
  "('g, 'k) outside \<Rightarrow> byte list \<Rightarrow> string \<Rightarrow> byte list
     \<Rightarrow> error + (byte list \<times> byte list \<times> byte list)" where
  "prepare_rsaData L data extension hashAndLength =
     (let aesKey = be_bytes 32 (randKey L);
          nonce = be_bytes nonceSize (randNonce L);
          resultAndNonce = nonce @ Seal L aesKey nonce data;
          aesNonce = take nonceSize resultAndNonce;
          aesResult = drop nonceSize resultAndNonce
      in if length hashAndLength < 4 then Inl PanicSliceBounds
         else
           let hashAndLength1 =
                 copy_at hashAndLength 0 (PutUint32 (word_of_nat (length aesResult)))
           in Inr (aesResult, rsaData_of L aesNonce extension hashAndLength1, hashAndLength1))"

definition encryptDataWithRSA ::
  "('g, 'k) outside \<Rightarrow> string \<Rightarrow> byte list \<Rightarrow> string \<Rightarrow> byte list
     \<Rightarrow> error + (byte list \<times> byte list \<times> byte list)" where
  "encryptDataWithRSA L rsaKey data extension hashAndLength =
     (case LoadRSAPublicKey L rsaKey of
        Inl e \<Rightarrow> Inl e
      | Inr rsaPub \<Rightarrow>
          (case prepare_rsaData L data extension hashAndLength of
             Inl e \<Rightarrow> Inl e
           | Inr (aesResult, rsaData, hashAndLength1) \<Rightarrow>
               (case EncryptPKCS1v15 L rsaPub rsaData of
                  Inl e \<Rightarrow> Inl e
                | Inr encrypted \<Rightarrow> Inr (aesResult, encrypted, hashAndLength1))))"

text \<open>The encryption step of \<^verbatim>\<open>encodeImage\<close>.\<close>

definition encode_encrypt ::
  "('g, 'k) outside \<Rightarrow> Program \<Rightarrow> int \<Rightarrow> string \<Rightarrow> int \<Rightarrow> byte list \<Rightarrow> error + byte list" where
  "encode_encrypt L p overhead extension sz hiddenData =
     (let sizePos = int (length hiddenData) - HASH_SIZE - FSIZE_LEN
      in case encryptDataWithRSA L (keyFile p) (take (nat sz) hiddenData) extension
                (drop (nat sizePos) hiddenData)
         of Inl e \<Rightarrow> Inl e
          | Inr (encdata, enctail, hashAndLength1) \<Rightarrow>
              let buf1 = copy_at hiddenData (nat sizePos) hashAndLength1
              in if int (length encdata) > sz + overhead then Inl CiphertextTooLarge
                 else if int (length enctail) \<noteq> RSA_SIZE then Inl RSASizeMismatch
                 else if length encdata > length buf1 \<or> int (length buf1) - RSA_SIZE < 0
                 then Inl PanicSliceBounds
                 else
                   let buf2 = copy_at buf1 0 encdata
                   in Inr (copy_at buf2 (nat (int (length buf2) - RSA_SIZE)) enctail))"

definition encodeImage ::
  "('g, 'k) outside \<Rightarrow> Program \<Rightarrow> image \<Rightarrow> string \<Rightarrow> byte list \<Rightarrow> error + image" where
  "encodeImage L p im extension payload =
     (case encode_envelope L p im payload of
        Inl e \<Rightarrow> Inl e
      | Inr (ibw, overhead, buf) \<Rightarrow>
          (case (if keyFile p \<noteq> []
                 then encode_encrypt L p overhead extension (int (length payload)) buf
                 else Inr buf)
           of Inl e \<Rightarrow> Inl e
            | Inr buf1 \<Rightarrow>
                (case (if shuffleSeed p \<noteq> [] then encode_shuffle L (shuffleSeed p) buf1
                       else Inr buf1)
                 of Inl e \<Rightarrow> Inl e
                  | Inr buf2 \<Rightarrow>
                      (case Write ibw buf2 of
                         ((n, Some err), ibw1) \<Rightarrow> Inl (WriteFailed n err)
                       | ((n, None), ibw1) \<Rightarrow> Inr (ibw_im ibw1)))))"

section \<open>Decoding\<close>

text \<open>The plain envelope: the length, its two checks, the hash check, the payload.\<close>

definition decode_plain :: "('g, 'k) outside \<Rightarrow> Program \<Rightarrow> byte list \<Rightarrow> error + byte list" where
  "decode_plain L p hiddenData =
     (let lenStart = int (length hiddenData) - HASH_SIZE - FSIZE_LEN
      in case slice hiddenData lenStart (lenStart + FSIZE_LEN) of
           Inl e \<Rightarrow> Inl e
         | Inr lengthBytes \<Rightarrow>
             (case Uint32 lengthBytes of
                Inl e \<Rightarrow> Inl e
              | Inr dataLength \<Rightarrow>
                  if dataLength = 0 then Inl DataLengthZero
                  else if dataLength > (word_of_int lenStart :: 32 word) then Inl LengthTooLarge
                  else
                    (case slice hiddenData 0 (uint dataLength) of
                       Inl e \<Rightarrow> Inl e
                     | Inr body \<Rightarrow>
                         let hashStart = int (length hiddenData) - HASH_SIZE
                         in if doHash p \<and>
                               sum_bytes (Sum256 L body) \<noteq> drop (nat hashStart) hiddenData
                            then Inl HashVerificationFailed
                            else Inr body)))"

text \<open>The encrypted envelope.\<close>

definition decode_encrypted :: "('g, 'k) outside \<Rightarrow> Program \<Rightarrow> byte list \<Rightarrow> error + byte list"
  where
  "decode_encrypted L p hiddenData =
     (let pos = int (length hiddenData) - RSA_SIZE
      in if pos < 0 then Inl PanicSliceBounds
         else
           (case decryptDataWithRSA L (keyFile p) (take (nat pos) hiddenData)
                   (drop (nat pos) hiddenData)
            of Inl e \<Rightarrow> Inl e
             | Inr (plainData, infoHash) \<Rightarrow>
                 if doHash p \<and> infoHash \<noteq> sum_bytes (Sum256 L plainData)
                 then Inl HashCheckFailed
                 else Inr plainData))"

text \<open>
  \<^verbatim>\<open>decodeImage\<close>: the bytes written to the data file, an error, or \<open>None\<close> when the
  unshuffling never ends.
\<close>

definition decodeImage :: "('g, 'k) outside \<Rightarrow> Program \<Rightarrow> image \<Rightarrow> (error + byte list) option"
  where
  "decodeImage L p im =
     (case GetHiddenBytesFromImage im of
        Inl e \<Rightarrow> Some (Inl e)
      | Inr hiddenData \<Rightarrow>
          (case (if shuffleSeed p \<noteq> [] then unshuffle L (shuffleSeed p) hiddenData
                 else Some (Inr hiddenData))
           of None \<Rightarrow> None
            | Some (Inl e) \<Rightarrow> Some (Inl e)
            | Some (Inr buf1) \<Rightarrow>
                Some (if keyFile p \<noteq> [] then decode_encrypted L p buf1
                      else decode_plain L p buf1)))"

section \<open>Notions used in the statements\<close>

text \<open>The images the program accepts.\<close>

definition supported :: "image \<Rightarrow> bool" where
  "supported im = (ColorModel im = RGBAModel \<or> ColorModel im = NRGBAModel)"

text \<open>Two channel values that agree on their upper seven bits.\<close>

definition same_but_lsb :: "byte \<Rightarrow> byte \<Rightarrow> bool" where
  "same_but_lsb v v' = (drop_bit 1 v' = drop_bit 1 v)"

text \<open>
  What one mutation at channel \<open>pos\<close> may change in a pixel: nothing but the last bit
  of that channel.
\<close>

fun frame_ok :: "int \<Rightarrow> quad \<Rightarrow> quad \<Rightarrow> bool" where
  "frame_ok pos (r, g, b, a) (r', g', b', a') =
     (a' = a \<and>
      (if pos = 0 then same_but_lsb r r' \<and> g' = g \<and> b' = b
       else if pos = 1 then r' = r \<and> same_but_lsb g g' \<and> b' = b
       else if pos = 2 then r' = r \<and> g' = g \<and> same_but_lsb b b'
       else r' = r \<and> g' = g \<and> b' = b))"

text \<open>
  The hidden bit at the linear position \<open>k = (y * w + x) * 3 + channel\<close>: the last bit
  of that channel of the pixel \<open>(x, y)\<close>.
\<close>

definition lsb_at :: "image \<Rightarrow> nat \<Rightarrow> bool" where
  "lsb_at im k =
     (case Pix im ((k div 3) mod Dx im) ((k div 3) div Dx im) of
        (r, g, b, a) \<Rightarrow>
          if k mod 3 = 0 then bit r 0 else if k mod 3 = 1 then bit g 0 else bit b 0)"

text \<open>The byte made of the bits \<open>8 k, ..., 8 k + 7\<close> of a bit stream, first bit lowest.\<close>

definition packed_byte :: "(nat \<Rightarrow> bool) \<Rightarrow> nat \<Rightarrow> byte" where
  "packed_byte f k = horner_sum of_bool 2 (map (\<lambda>i. f (8 * k + i)) [0..<8])"

definition hidden_bytes :: "image \<Rightarrow> byte list" where
  "hidden_bytes im = map (packed_byte (lsb_at im)) [0..<Dx im * Dy im * 3 div 8]"

text \<open>A bit writer after the first \<open>m\<close> bits of a stream, as a run and in closed form.\<close>

definition fed :: "(nat \<Rightarrow> bool) \<Rightarrow> BitWriter \<Rightarrow> nat \<Rightarrow> BitWriter" where
  "fed f bw m = foldl WriteBit bw (map f [0..<m])"

definition fed_state :: "(nat \<Rightarrow> bool) \<Rightarrow> byte list \<Rightarrow> nat \<Rightarrow> BitWriter" where
  "fed_state f buf m =
     \<lparr>bw_inner = buf @ map (packed_byte f) [0..<m div 8],
      bw_currentByte = horner_sum of_bool 2 (map (\<lambda>i. f (8 * (m div 8) + i)) [0..<m mod 8]),
      bw_currentPos = m mod 8\<rparr>"

subsection \<open>Concrete inputs\<close>

text \<open>A 3 by 3 image (27 hidden bits, 3 bytes and 3 bits left over).\<close>

definition image_3x3 :: image where
  "image_3x3 = \<lparr>ColorModel = NRGBAModel, Dx = 3, Dy = 3,
                 Pix = (\<lambda>x y. (254, 255, 7, 128)), Convert = (\<lambda>c. (0, 0, 0, 0))\<rparr>"

text \<open>A writer on a 1 by 1 image whose cursor is at the green channel.\<close>

definition writer_1x1 :: ImageByteWriter where
  "writer_1x1 =
     \<lparr>ibw_im = \<lparr>ColorModel = RGBAModel, Dx = 1, Dy = 1,
                Pix = (\<lambda>x y. (10, 20, 30, 40)), Convert = (\<lambda>c. (0, 0, 0, 0))\<rparr>,
      currentX = 0, currentY = 0, currentRGB = 1, currentByte = 0,
      ibw_w = 1, ibw_h = 1, capacity = 0\<rparr>"

text \<open>
  A stand-in for what the program takes from outside, for concrete runs: the hash is
  the sum of the bytes, the generator counts upwards from its seed and draws its state
  modulo the bound, sealing appends a 16-byte tag of zeros.
\<close>

definition toy_outside :: "(nat, unit) outside" where
  "toy_outside =
     \<lparr>Sum256 = (\<lambda>bs. word_of_nat (sum_list (map unat bs))),
      NewSource = unat,
      Intn = (\<lambda>g n. (g mod n, Suc g)),
      Overhead = Inr 16,
      randKey = 0, randNonce = 0, now = 0,
      Seal = (\<lambda>k n d. d @ replicate 16 0),
      LoadRSAPublicKey = (\<lambda>f. Inr ()),
      EncryptPKCS1v15 = (\<lambda>k m. Inr (take 256 (m @ replicate 256 0))),
      decryptDataWithRSA = (\<lambda>f d t. Inl CryptoError)\<rparr>"

text \<open>The program's settings: hashing on or off, a shuffle seed, a key file.\<close>

definition program :: "bool \<Rightarrow> string \<Rightarrow> string \<Rightarrow> Program" where
  "program h seed key =
     \<lparr>verbose = False, doHash = h, decode = False, shuffleSeed = seed, inputImage = [],
      dataFile = [], outputImage = [], keyFile = key\<rparr>"

text \<open>
  The message that \<^verbatim>\<open>encodeImage\<close> has RSA encrypt when a key file is given: the
  envelope so far, and the call of \<^verbatim>\<open>encryptDataWithRSA\<close> on its payload and its last
  36 bytes.
\<close>

definition encode_rsaData ::
  "('g, 'k) outside \<Rightarrow> Program \<Rightarrow> image \<Rightarrow> string \<Rightarrow> byte list \<Rightarrow> error + byte list" where
  "encode_rsaData L p im extension payload =
     (case encode_envelope L p im payload of
        Inl e \<Rightarrow> Inl e
      | Inr (ibw, overhead, buf) \<Rightarrow>
          (case prepare_rsaData L (take (length payload) buf) extension
                  (drop (nat (int (length buf) - HASH_SIZE - FSIZE_LEN)) buf)
           of Inl e \<Rightarrow> Inl e
            | Inr (aesResult, rsaData, hashAndLength1) \<Rightarrow> Inr rsaData))"

text \<open>
  The library with RSA replaced by a function that answers \<open>t\<close> whatever it is given.
  A run that equals its run on \<open>rsa_returns L t\<close> uses of RSA its answer \<open>t\<close> and
  nothing else.
\<close>

definition rsa_returns :: "('g, 'k) outside \<Rightarrow> byte list \<Rightarrow> ('g, 'k) outside" where
  "rsa_returns L t = L\<lparr>EncryptPKCS1v15 := (\<lambda>k m. Inr t)\<rparr>"

text \<open>Images whose pixels all have the same value.\<close>

definition uniform_image :: "cmodel \<Rightarrow> nat \<Rightarrow> nat \<Rightarrow> quad \<Rightarrow> image" where
  "uniform_image cm w h q =
     \<lparr>ColorModel = cm, Dx = w, Dy = h, Pix = (\<lambda>x y. q), Convert = (\<lambda>c. (0, 0, 0, 0))\<rparr>"

text \<open>
  The plain envelope over the bytes \<open>H\<close> the carrier held: the payload, the carrier's
  own bytes up to offset \<open>capacity - 36\<close>, the length, and then the hash or, with
  hashing off, the carrier's own last 32 bytes.
\<close>

definition envelope_of :: "('g, 'k) outside \<Rightarrow> bool \<Rightarrow> byte list \<Rightarrow> byte list \<Rightarrow> byte list" where
  "envelope_of L h H P =
     P @ take (length H - 36 - length P) (drop (length P) H)
       @ PutUint32 (word_of_nat (length P))
       @ (if h then sum_bytes (Sum256 L P) else drop (length H - 32) H)"

text \<open>The writer \<^verbatim>\<open>NewImageByteWriter\<close> makes for a supported image.\<close>

definition fresh_writer :: "image \<Rightarrow> ImageByteWriter" where
  "fresh_writer im =
     \<lparr>ibw_im = im, currentX = 0, currentY = 0, currentRGB = 0, currentByte = 0,
      ibw_w = int (Dx im), ibw_h = int (Dy im),
      capacity = go_div (go_int (go_int (int (Dx im) * int (Dy im)) * 3)) 8\<rparr>"

text \<open>A writer with a given image whose cursor is at the linear bit position \<open>k\<close>.\<close>

definition at_pos :: "ImageByteWriter \<Rightarrow> image \<Rightarrow> nat \<Rightarrow> ImageByteWriter" where
  "at_pos ibw im k =
     ibw\<lparr>ibw_im := im, currentRGB := int (k mod 3),
         currentX := int ((k div 3) mod Dx im), currentY := int ((k div 3) div Dx im)\<rparr>"

text \<open>The image after the hidden bit at position \<open>k\<close> is set; then a run of bits.\<close>

definition put_bit :: "image \<Rightarrow> nat \<Rightarrow> bool \<Rightarrow> image" where
  "put_bit im k bitv =
     (let x = int ((k div 3) mod Dx im); y = int ((k div 3) div Dx im)
      in case colorEmbed (At im x y) (int (k mod 3)) bitv of
           Inl e \<Rightarrow> im
         | Inr c \<Rightarrow> Set im x y c)"

primrec put_bits :: "image \<Rightarrow> nat \<Rightarrow> bool list \<Rightarrow> image" where
  "put_bits im k [] = im"
| "put_bits im k (b # bs) = put_bits (put_bit im k b) (Suc k) bs"

text \<open>The bits of a byte sequence, each byte lowest bit first.\<close>

definition bits_of :: "byte list \<Rightarrow> bool list" where
  "bits_of bs = concat (map (\<lambda>b. map (bit b) [0..<8]) bs)"

text \<open>
  A writer of a supported image whose cursor is where its byte count says: at the bit
  position \<open>8 * currentByte\<close>. \<^verbatim>\<open>NewImageByteWriter\<close> makes such a writer (where the
  capacity did not wrap) and \<^verbatim>\<open>Write\<close> keeps it so; \<^verbatim>\<open>Seek\<close> does not.
\<close>

definition in_sync :: "ImageByteWriter \<Rightarrow> bool" where
  "in_sync ibw =
     (supported (ibw_im ibw) \<and>
      ibw_w ibw = int (Dx (ibw_im ibw)) \<and> ibw_h ibw = int (Dy (ibw_im ibw)) \<and>
      capacity ibw = int (Dx (ibw_im ibw) * Dy (ibw_im ibw) * 3 div 8) \<and>
      0 \<le> currentByte ibw \<and> currentByte ibw \<le> capacity ibw \<and>
      currentRGB ibw = int ((8 * nat (currentByte ibw)) mod 3) \<and>
      currentX ibw = int (((8 * nat (currentByte ibw)) div 3) mod Dx (ibw_im ibw)) \<and>
      currentY ibw = int (((8 * nat (currentByte ibw)) div 3) div Dx (ibw_im ibw)))"

text \<open>The writer after the bytes \<open>bs\<close> went into the carrier at its cursor.\<close>

definition written :: "ImageByteWriter \<Rightarrow> byte list \<Rightarrow> ImageByteWriter" where
  "written ibw bs =
     at_pos (ibw\<lparr>currentByte := currentByte ibw + int (length bs)\<rparr>)
       (put_bits (ibw_im ibw) (8 * nat (currentByte ibw)) (bits_of bs))
       (8 * (nat (currentByte ibw) + length bs))"


text \<open>Two images of the same colour model and size.\<close>

definition same_grid :: "image \<Rightarrow> image \<Rightarrow> bool" where
  "same_grid im im' =
     (ColorModel im' = ColorModel im \<and> Dx im' = Dx im \<and> Dy im' = Dy im \<and>
      Convert im' = Convert im)"

text \<open>
  The contract of the generator: a draw below a positive bound is below the bound
  (\<^verbatim>\<open>Int31n\<close> and \<^verbatim>\<open>Int63n\<close> return a value in \<open>[0, n)\<close>).
\<close>

definition rng_ok :: "('g, 'k) outside \<Rightarrow> bool" where
  "rng_ok L = (\<forall>g n. 0 < n \<longrightarrow> fst (Intn L g n) < n)"

text \<open>The calls \<open>swap(i, j)\<close> that \<^verbatim>\<open>Shuffle\<close> makes, in order.\<close>

primrec draws :: "('g, 'k) outside \<Rightarrow> nat \<Rightarrow> 'g \<Rightarrow> (nat \<times> nat) list" where
  "draws L 0 g = []"
| "draws L (Suc i) g = (case Intn L g (Suc i + 1) of (j, g') \<Rightarrow> (Suc i, j) # draws L i g')"

text \<open>Exchanging two positions of a list, and a run of exchanges.\<close>

definition swap_list :: "nat \<times> nat \<Rightarrow> 'a list \<Rightarrow> 'a list" where
  "swap_list ab xs = xs[fst ab := xs ! snd ab, snd ab := xs ! fst ab]"

definition apply_swaps :: "(nat \<times> nat) list \<Rightarrow> 'a list \<Rightarrow> 'a list" where
  "apply_swaps sw xs = fold swap_list sw xs"

text \<open>The exchanges of one round and of the four rounds, for a seed string and a length.\<close>

definition round_draws :: "('g, 'k) outside \<Rightarrow> string \<Rightarrow> nat \<Rightarrow> nat \<Rightarrow> (nat \<times> nat) list" where
  "round_draws L seedString n r =
     (case round_seed (sum_bytes (Sum256 L (string_bytes seedString))) r of
        Inl e \<Rightarrow> []
      | Inr seed \<Rightarrow> draws L (n - 1) (NewSource L seed))"

definition all_draws :: "('g, 'k) outside \<Rightarrow> string \<Rightarrow> nat \<Rightarrow> (nat \<times> nat) list" where
  "all_draws L seedString n = concat (map (round_draws L seedString n) [0..<4])"

text \<open>
  The invariant of the decoder's cycle-following loops for the original buffer \<open>B\<close>:
  the index array is a permutation of the positions, and each byte is the byte of \<open>B\<close>
  at the position its index entry names.
\<close>

definition unshuffle_inv :: "byte list \<Rightarrow> byte list \<times> nat list \<Rightarrow> bool" where
  "unshuffle_inv B s =
     (length (fst s) = length B \<and> length (snd s) = length B \<and> distinct (snd s) \<and>
      set (snd s) = {..<length B} \<and> (\<forall>p < length B. fst s ! p = B ! (snd s ! p)))"

text \<open>The positions an index array does not map to themselves.\<close>

definition moved :: "nat list \<Rightarrow> nat set" where
  "moved ix = {p. p < length ix \<and> ix ! p \<noteq> p}"

text \<open>The 64-bit words of a 256-bit hash, the most significant first.\<close>

definition hash_word :: "256 word \<Rightarrow> nat \<Rightarrow> 64 word" where
  "hash_word h r = ucast (drop_bit (64 * (3 - r)) h)"

text \<open>Exchanges whose two positions are below \<open>n\<close>.\<close>

definition in_range :: "nat \<Rightarrow> (nat \<times> nat) list \<Rightarrow> bool" where
  "in_range n sw = (\<forall>ab \<in> set sw. fst ab < n \<and> snd ab < n)"

text \<open>The envelope as the encoder writes it: shuffled when a seed is given.\<close>

definition shuffled :: "('g, 'k) outside \<Rightarrow> string \<Rightarrow> byte list \<Rightarrow> byte list" where
  "shuffled L seedString env =
     (if seedString \<noteq> [] then apply_swaps (all_draws L seedString (length env)) env else env)"

section \<open>The frame of a pixel mutation\<close>

lemma same_but_lsb_bitEmbed: "same_but_lsb v (bitEmbed v bitv)"
  unfolding same_but_lsb_def bitEmbed_def
  by (rule bit_eqI) (auto simp: bit_simps dest: bit_imp_le_length)

lemma frame_ok_refl: "frame_ok pos q q"
  by (cases q) (simp add: same_but_lsb_def)

lemma colorEmbed_frame:
  "colorEmbed (wrap_color cm q) pos bitv = Inr c \<Longrightarrow>
     \<exists>q'. c = wrap_color cm q' \<and> frame_ok pos q q' \<and>
          (\<forall>im. ColorModel im = cm \<longrightarrow> model_convert im c = q')"
  by (cases cm; cases q) (auto simp: same_but_lsb_bitEmbed split: if_splits)

text \<open>
  C9. Every mutation of \<^verbatim>\<open>writeByte\<close> (read the pixel under the cursor, embed the bit,
  store the pixel) leaves the colour model and the size of the image alone, leaves every
  other pixel alone, and in the addressed pixel changes at most the last bit of the
  addressed channel: the upper seven bits of that channel, the two other colour channels
  and alpha keep their values.
\<close>

theorem pixel_frame_effect:
  "embed_at_cursor ibw bitv = Inr ibw' \<Longrightarrow>
     ColorModel (ibw_im ibw') = ColorModel (ibw_im ibw) \<and>
     Dx (ibw_im ibw') = Dx (ibw_im ibw) \<and> Dy (ibw_im ibw') = Dy (ibw_im ibw) \<and>
     (\<forall>x y. if x = nat (currentX ibw) \<and> y = nat (currentY ibw)
            then frame_ok (currentRGB ibw) (Pix (ibw_im ibw) x y) (Pix (ibw_im ibw') x y)
            else Pix (ibw_im ibw') x y = Pix (ibw_im ibw) x y)"
  unfolding embed_at_cursor_def At_def Set_def
  by (auto split: sum.splits if_splits simp: frame_ok_refl dest!: colorEmbed_frame)

theorem pixel_frame_effect_witness:
  "embed_at_cursor writer_1x1 True = Inr (projr (embed_at_cursor writer_1x1 True)) \<and>
   Pix (ibw_im (projr (embed_at_cursor writer_1x1 True))) 0 0 = (10, 21, 30, 40) \<and>
   frame_ok 1 (10, 20, 30, 40) (Pix (ibw_im (projr (embed_at_cursor writer_1x1 True))) 0 0)"
proof -
  have e: "embed_at_cursor writer_1x1 True = Inr (projr (embed_at_cursor writer_1x1 True))"
    by (simp add: embed_at_cursor_def writer_1x1_def At_def in_bounds_def Set_def bitEmbed_def)
  have p: "Pix (ibw_im (projr (embed_at_cursor writer_1x1 True))) 0 0 = (10, 21, 30, 40)"
    by (simp add: embed_at_cursor_def writer_1x1_def At_def in_bounds_def Set_def bitEmbed_def)
  have c: "nat (currentX writer_1x1) = 0" "nat (currentY writer_1x1) = 0"
    "currentRGB writer_1x1 = 1" "Pix (ibw_im writer_1x1) 0 0 = (10, 20, 30, 40)"
    by (simp_all add: writer_1x1_def)
  have "\<forall>x y. if x = nat (currentX writer_1x1) \<and> y = nat (currentY writer_1x1)
            then frame_ok (currentRGB writer_1x1) (Pix (ibw_im writer_1x1) x y)
                   (Pix (ibw_im (projr (embed_at_cursor writer_1x1 True))) x y)
            else Pix (ibw_im (projr (embed_at_cursor writer_1x1 True))) x y =
                 Pix (ibw_im writer_1x1) x y"
    using pixel_frame_effect [OF e] by blast
  then have "frame_ok 1 (10, 20, 30, 40)
          (Pix (ibw_im (projr (embed_at_cursor writer_1x1 True))) 0 0)"
    unfolding c by (metis c(4))
  then show ?thesis
    using e p by blast
qed

section \<open>The bytes an image hides\<close>

lemma fed_0: "fed f bw 0 = bw"
  by (simp add: fed_def)

lemma fed_Suc: "fed f bw (Suc m) = WriteBit (fed f bw m) (f m)"
  by (simp add: fed_def)

lemma horner_snoc_word:
  fixes bs :: "bool list"
  shows "(horner_sum of_bool 2 (bs @ [b]) :: byte) =
           horner_sum of_bool 2 bs OR (if b then push_bit (length bs) 1 else 0)"
  by (rule bit_eqI)
     (auto simp: bit_horner_sum_bit_word_iff bit_simps nth_append less_Suc_eq)

lemma WriteBit_fed_state: "WriteBit (fed_state f buf m) (f m) = fed_state f buf (Suc m)"
proof (cases "m mod 8 = 7")
  case True
  then have d: "Suc m div 8 = Suc (m div 8)" and r: "Suc m mod 8 = 0"
    by presburger+
  have m: "m = 8 * (m div 8) + 7" using True by presburger
  have "[0..<8] = [0..<7] @ [7::nat]"
    by (simp add: upt_rec)
  then have pb: "packed_byte f (m div 8) =
      horner_sum of_bool 2 (map (\<lambda>i. f (8 * (m div 8) + i)) [0..<7])
        OR (if f m then push_bit 7 1 else 0)"
    unfolding packed_byte_def using m by (simp add: horner_snoc_word del: upt_Suc)
  show ?thesis
    unfolding WriteBit_def fed_state_def Let_def d r
    using True pb by (simp add: Flush_def)
next
  case False
  then have lt: "m mod 8 < 7"
    by presburger
  then have d: "Suc m div 8 = m div 8" and r: "Suc m mod 8 = Suc (m mod 8)"
    by presburger+
  have m: "m = 8 * (m div 8) + m mod 8" by simp
  have "horner_sum of_bool 2 (map (\<lambda>i. f (8 * (m div 8) + i)) [0..<Suc (m mod 8)]) =
        (horner_sum of_bool 2 (map (\<lambda>i. f (8 * (m div 8) + i)) [0..<m mod 8]) :: byte)
          OR (if f m then push_bit (m mod 8) 1 else 0)"
    using horner_snoc_word [of "map (\<lambda>i. f (8 * (m div 8) + i)) [0..<m mod 8]" "f m"] m
    by simp
  then show ?thesis
    unfolding WriteBit_def fed_state_def Let_def d r
    using lt by simp
qed

lemma fed_eq_fed_state: "fed f (NewBitWriter buf) m = fed_state f buf m"
proof (induction m)
  case 0
  show ?case by (simp add: fed_0 fed_state_def NewBitWriter_def)
next
  case (Suc m)
  then show ?case by (simp add: fed_Suc WriteBit_fed_state)
qed

lemma and_1_neq_0: "((v :: byte) AND 1 \<noteq> 0) = bit v 0"
  by (simp add: and_one_eq bit_0 odd_iff_mod_2_eq_one)

lemma for_each_append:
  "for_each (xs @ ys) body s =
     (case for_each xs body s of Inl e \<Rightarrow> Inl e | Inr s' \<Rightarrow> for_each ys body s')"
  by (induction xs arbitrary: s) (auto split: sum.splits)

lemma read_pixel_fed:
  assumes "supported im" "i < Dx im" "j < Dy im"
  shows "read_pixel im j i (fed (lsb_at im) bw (3 * (Dx im * j + i))) =
           Inr (fed (lsb_at im) bw (3 * (Dx im * j + i) + 3))"
proof -
  let ?p = "Dx im * j + i"
  obtain r g b a where q: "Pix im i j = (r, g, b, a)"
    by (cases "Pix im i j") auto
  have pm: "?p mod Dx im = i" and pd: "?p div Dx im = j"
    using assms(2) by simp_all
  have k0: "lsb_at im (3 * ?p) = bit r 0"
    unfolding lsb_at_def using q pm pd by simp
  have d1: "(3 * ?p + 1) div 3 = ?p" and m1: "(3 * ?p + 1) mod 3 = 1"
   and d2: "(3 * ?p + 2) div 3 = ?p" and m2: "(3 * ?p + 2) mod 3 = 2"
    by presburger+
  have k1: "lsb_at im (3 * ?p + 1) = bit g 0"
    unfolding lsb_at_def d1 m1 using q pm pd by simp
  have k2: "lsb_at im (3 * ?p + 2) = bit b 0"
    unfolding lsb_at_def d2 m2 using q pm pd by simp
  have at: "colorToRGBA (At im (int i) (int j)) = Inr (RGBA r g b a)"
    using assms q unfolding supported_def At_def in_bounds_def by auto
  have three: "3 * ?p + 3 = Suc (Suc (Suc (3 * ?p)))" by simp
  show ?thesis
    unfolding read_pixel_def at three fed_Suc
    using k0 k1 k2 by (simp add: and_1_neq_0)
qed

lemma read_row_fed:
  assumes "supported im" "j < Dy im"
  shows "i \<le> Dx im \<Longrightarrow>
         for_each [0..<i] (read_pixel im j) (fed (lsb_at im) bw (3 * (Dx im * j))) =
           Inr (fed (lsb_at im) bw (3 * (Dx im * j + i)))"
proof (induction i)
  case 0
  show ?case by simp
next
  case (Suc i)
  have e: "3 * (Dx im * j + i) + 3 = 3 * (Dx im * j + Suc i)" by simp
  have "for_each [0..<i] (read_pixel im j) (fed (lsb_at im) bw (3 * (Dx im * j))) =
          Inr (fed (lsb_at im) bw (3 * (Dx im * j + i)))"
    using Suc by simp
  moreover have "read_pixel im j i (fed (lsb_at im) bw (3 * (Dx im * j + i))) =
          Inr (fed (lsb_at im) bw (3 * (Dx im * j + Suc i)))"
    using read_pixel_fed [OF assms(1) _ assms(2), of i bw] Suc.prems unfolding e by simp
  ultimately show ?case
    by (simp add: for_each_append)
qed

lemma read_rows_fed:
  assumes "supported im"
  shows "j \<le> Dy im \<Longrightarrow>
         for_each [0..<j] (\<lambda>j. for_each [0..<Dx im] (read_pixel im j)) (fed (lsb_at im) bw 0) =
           Inr (fed (lsb_at im) bw (3 * (Dx im * j)))"
proof (induction j)
  case 0
  show ?case by simp
next
  case (Suc j)
  have e: "Dx im * j + Dx im = Dx im * Suc j" by simp
  have "for_each [0..<j] (\<lambda>j. for_each [0..<Dx im] (read_pixel im j)) (fed (lsb_at im) bw 0) =
          Inr (fed (lsb_at im) bw (3 * (Dx im * j)))"
    using Suc by simp
  moreover have "for_each [0..<Dx im] (read_pixel im j) (fed (lsb_at im) bw (3 * (Dx im * j))) =
          Inr (fed (lsb_at im) bw (3 * (Dx im * Suc j)))"
    using read_row_fed [OF assms, of j "Dx im" bw] Suc.prems unfolding e by simp
  ultimately show ?case
    by (simp add: for_each_append)
qed

lemma GetHiddenBytesFromImage_eq:
  assumes "supported im"
  shows "GetHiddenBytesFromImage im = Inr (hidden_bytes im)"
proof -
  have "for_each [0..<Dy im] (\<lambda>j. for_each [0..<Dx im] (read_pixel im j)) (NewBitWriter []) =
          Inr (fed_state (lsb_at im) [] (3 * (Dx im * Dy im)))"
    using read_rows_fed [OF assms, of "Dy im" "NewBitWriter []"]
    by (simp add: fed_0 fed_eq_fed_state)
  moreover have "3 * (Dx im * Dy im) = Dx im * Dy im * 3" by simp
  ultimately show ?thesis
    using assms unfolding GetHiddenBytesFromImage_def supported_def hidden_bytes_def
    by (auto simp: fed_state_def)
qed

lemma length_hidden_bytes: "length (hidden_bytes im) = Dx im * Dy im * 3 div 8"
  by (simp add: hidden_bytes_def)

lemma bit_packed_byte: "i < 8 \<Longrightarrow> bit (packed_byte f k) i = f (8 * k + i)"
  unfolding packed_byte_def by (simp add: bit_horner_sum_bit_word_iff del: upt_Suc)

text \<open>Where no product leaves the 64-bit range, the capacity is the floor.\<close>

lemma go_int_id: "- (2 ^ 63) \<le> x \<Longrightarrow> x < 2 ^ 63 \<Longrightarrow> go_int x = x"
  unfolding go_int_def sint_sbintrunc' by (simp add: signed_take_bit_int_eq_self)

lemma go_div_nonneg: "0 \<le> a \<Longrightarrow> 0 < b \<Longrightarrow> go_div a b = a div b"
  by (cases "a = 0") (simp_all add: go_div_def)

lemma capacity_fresh_writer:
  assumes "Dx im * Dy im * 3 < 2 ^ 63"
  shows "capacity (fresh_writer im) = int (Dx im * Dy im * 3 div 8)"
proof -
  have b: "int (Dx im) * int (Dy im) * 3 < 2 ^ 63"
    using assms by (metis (mono_tags) of_nat_less_iff of_nat_mult of_nat_numeral of_nat_power)
  have n: "0 \<le> int (Dx im) * int (Dy im)"
    by simp
  have a: "int (Dx im) * int (Dy im) < 2 ^ 63"
    using b n by linarith
  have 1: "go_int (int (Dx im) * int (Dy im)) = int (Dx im) * int (Dy im)"
    using a n by (intro go_int_id) linarith+
  have 2: "go_int (int (Dx im) * int (Dy im) * 3) = int (Dx im) * int (Dy im) * 3"
    using b n by (intro go_int_id) linarith+
  have "int (Dx im) * int (Dy im) * 3 div 8 = int (Dx im * Dy im * 3 div 8)"
    by (simp add: zdiv_int)
  then show ?thesis
    using n by (simp add: fresh_writer_def 1 2 go_div_nonneg)
qed

lemma NewImageByteWriter_fresh:
  "supported im \<Longrightarrow> NewImageByteWriter im = Inr (fresh_writer im)"
  by (simp add: NewImageByteWriter_def supported_def fresh_writer_def)

text \<open>
  C3, as amended. For every supported image whose number of hidden bits
  \<open>width * height * 3\<close> is below \<open>2 ^ 63\<close>, the capacity fixed at construction is
  \<open>floor (width * height * 3 / 8)\<close>, and the extraction of the hidden bit stream returns
  exactly that many bytes, whatever \<open>width * height * 3 mod 8\<close> is. Bit \<open>i\<close> of byte
  \<open>k\<close> is the last bit of the channel at the linear position \<open>8 k + i\<close> (pixels row by
  row, channels R, G, B); the bits after the last full byte are dropped.
\<close>

theorem capacity_arithmetic:
  assumes "supported im" and "Dx im * Dy im * 3 < 2 ^ 63"
  shows "\<exists>ibw bs. NewImageByteWriter im = Inr ibw \<and>
           Capacity ibw = int (Dx im * Dy im * 3 div 8) \<and>
           GetHiddenBytesFromImage im = Inr bs \<and>
           int (length bs) = Capacity ibw \<and>
           (\<forall>k < length bs. \<forall>i < 8. bit (bs ! k) i = lsb_at im (8 * k + i))"
proof -
  have "\<forall>k < length (hidden_bytes im). \<forall>i < 8.
      bit (hidden_bytes im ! k) i = lsb_at im (8 * k + i)"
    by (simp add: hidden_bytes_def bit_packed_byte)
  then show ?thesis
    using GetHiddenBytesFromImage_eq [OF assms(1)]
    by (simp add: NewImageByteWriter_fresh [OF assms(1)] Capacity_def
          capacity_fresh_writer [OF assms(2)] length_hidden_bytes)
qed

theorem capacity_arithmetic_witness:
  "supported image_3x3 \<and> Dx image_3x3 * Dy image_3x3 * 3 < 2 ^ 63 \<and>
   (3 * 3 * 3) mod 8 = (3::nat) \<and>
   (\<exists>ibw bs. NewImageByteWriter image_3x3 = Inr ibw \<and> Capacity ibw = 3 \<and>
      GetHiddenBytesFromImage image_3x3 = Inr bs \<and> int (length bs) = Capacity ibw)"
proof -
  have s: "supported image_3x3"
    by (simp add: supported_def image_3x3_def)
  have b: "Dx image_3x3 * Dy image_3x3 * 3 < 2 ^ 63"
    by (simp add: image_3x3_def)
  show ?thesis
    using s b capacity_arithmetic [OF s b] by (auto simp: image_3x3_def)
qed

text \<open>
  The claim as stated fails where the product leaves the 64-bit range: for a grid of
  \<open>2 ^ 31\<close> by \<open>2 ^ 31\<close> pixels \<open>width * height * 3\<close> is \<open>3 * 2 ^ 62\<close>, which an \<^verbatim>\<open>int\<close>
  holds as \<open>- (2 ^ 62)\<close>, and the capacity is \<open>- (2 ^ 59)\<close>, not the floor
  \<open>3 * 2 ^ 59\<close>.
\<close>

theorem capacity_arithmetic_counterexample:
  "supported (uniform_image RGBAModel (2 ^ 31) (2 ^ 31) (0, 0, 0, 255)) \<and>
   NewImageByteWriter (uniform_image RGBAModel (2 ^ 31) (2 ^ 31) (0, 0, 0, 255)) =
     Inr (fresh_writer (uniform_image RGBAModel (2 ^ 31) (2 ^ 31) (0, 0, 0, 255))) \<and>
   Capacity (fresh_writer (uniform_image RGBAModel (2 ^ 31) (2 ^ 31) (0, 0, 0, 255))) =
     - 576460752303423488 \<and>
   int (Dx (uniform_image RGBAModel (2 ^ 31) (2 ^ 31) (0, 0, 0, 255)) *
        Dy (uniform_image RGBAModel (2 ^ 31) (2 ^ 31) (0, 0, 0, 255)) * 3 div 8) =
     1729382256910270464"
proof -
  let ?im = "uniform_image RGBAModel (2 ^ 31) (2 ^ 31) (0, 0, 0, 255)"
  have s: "supported ?im"
    by (simp add: supported_def uniform_image_def)
  have c: "Capacity (fresh_writer ?im) = - 576460752303423488"
    by (simp add: Capacity_def fresh_writer_def uniform_image_def go_int_def go_div_def)
  have f: "int (Dx ?im * Dy ?im * 3 div 8) = 1729382256910270464"
    by (simp add: uniform_image_def)
  show ?thesis
    using s NewImageByteWriter_fresh [OF s] c f by simp
qed

section \<open>The plain envelope on decode\<close>

lemma Uint32_PutUint32: "Uint32 (PutUint32 v) = Inr v"
proof -
  have "(ucast (ucast v :: byte) OR push_bit 8 (ucast (ucast (drop_bit 8 v) :: byte))
          OR push_bit 16 (ucast (ucast (drop_bit 16 v) :: byte))
          OR push_bit 24 (ucast (ucast (drop_bit 24 v) :: byte)) :: 32 word) = v"
  proof (rule bit_eqI)
    fix n assume "possible_bit TYPE(32 word) n"
    then have n: "n < 32" by simp
    consider "n < 8" | "8 \<le> n" "n < 16" | "16 \<le> n" "n < 24" | "24 \<le> n"
      by linarith
    then show "bit (ucast (ucast v :: byte) OR push_bit 8 (ucast (ucast (drop_bit 8 v) :: byte))
          OR push_bit 16 (ucast (ucast (drop_bit 16 v) :: byte))
          OR push_bit 24 (ucast (ucast (drop_bit 24 v) :: byte)) :: 32 word) n = bit v n"
      using n by cases (auto simp: bit_simps)
  qed
  then show ?thesis
    unfolding Uint32_def PutUint32_def by simp
qed

lemma decode_plain_field:
  assumes "36 \<le> length buf" and "take 4 (drop (length buf - 36) buf) = PutUint32 v"
  shows "decode_plain L p buf =
     (if v = 0 then Inl DataLengthZero
      else if v > word_of_nat (length buf - 36) then Inl LengthTooLarge
      else (case slice buf 0 (uint v) of
              Inl e \<Rightarrow> Inl e
            | Inr body \<Rightarrow>
                if doHash p \<and> sum_bytes (Sum256 L body) \<noteq> drop (length buf - 32) buf
                then Inl HashVerificationFailed else Inr body))"
proof -
  have s: "slice buf (int (length buf) - 32 - 4) (int (length buf) - 32 - 4 + 4) = Inr (PutUint32 v)"
    using assms unfolding slice_def by (simp add: nat_diff_distrib')
  have w: "(word_of_int (int (length buf) - 32 - 4) :: 32 word) = word_of_nat (length buf - 36)"
    using assms(1) by (simp add: of_nat_diff)
  have h: "nat (int (length buf) - 32) = length buf - 32"
    by simp
  show ?thesis
    unfolding decode_plain_def HASH_SIZE_def FSIZE_LEN_def Let_def s w h
    by (simp add: Uint32_PutUint32)
qed

text \<open>
  C4, as amended. For every buffer of at least 36 bytes whose four bytes at offset
  \<open>capacity - 36\<close> spell \<open>v\<close> big-endian: parsing fails with "data length is zero"
  when \<open>v = 0\<close>; fails with "length is too large" when \<open>v\<close> exceeds
  \<open>capacity - 36\<close>; and when \<open>v\<close> equals \<open>capacity - 36\<close> and is not zero, the
  length is accepted: the result is the first \<open>v\<close> bytes, or the hash error when
  hashing is on and the hash of those bytes differs from the last 32 bytes.
\<close>

theorem plain_parse_boundary:
  assumes "36 \<le> length buf" and "take 4 (drop (length buf - 36) buf) = PutUint32 v"
  shows "(v = 0 \<longrightarrow> decode_plain L p buf = Inl DataLengthZero) \<and>
         (unat v > length buf - 36 \<longrightarrow> decode_plain L p buf = Inl LengthTooLarge) \<and>
         (unat v = length buf - 36 \<and> v \<noteq> 0 \<longrightarrow>
            decode_plain L p buf =
              (if doHash p \<and>
                  sum_bytes (Sum256 L (take (unat v) buf)) \<noteq> drop (length buf - 32) buf
               then Inl HashVerificationFailed
               else Inr (take (unat v) buf)))"
proof (intro conjI impI)
  assume "v = 0"
  then show "decode_plain L p buf = Inl DataLengthZero"
    by (simp add: decode_plain_field [OF assms])
next
  assume a: "unat v > length buf - 36"
  have "unat v < 2 ^ 32"
    using unsigned_less [of v] by simp
  then have "length buf - 36 < 2 ^ 32" using a by simp
  then have "unat (word_of_nat (length buf - 36) :: 32 word) = length buf - 36"
    by (simp add: unat_of_nat)
  then have "v > word_of_nat (length buf - 36)"
    using a by (simp add: word_less_nat_alt)
  moreover have "v \<noteq> 0" using a by auto
  ultimately show "decode_plain L p buf = Inl LengthTooLarge"
    by (simp add: decode_plain_field [OF assms])
next
  assume a: "unat v = length buf - 36 \<and> v \<noteq> 0"
  then have "(word_of_nat (length buf - 36) :: 32 word) = v"
    by (metis of_nat_unat ucast_id)
  moreover have "slice buf 0 (uint v) = Inr (take (unat v) buf)"
    using a unfolding slice_def by (simp add: uint_nat)
  ultimately show "decode_plain L p buf =
              (if doHash p \<and>
                  sum_bytes (Sum256 L (take (unat v) buf)) \<noteq> drop (length buf - 32) buf
               then Inl HashVerificationFailed
               else Inr (take (unat v) buf))"
    using a by (simp add: decode_plain_field [OF assms])
qed

lemma length_PutUint32: "length (PutUint32 v) = 4"
  by (simp add: PutUint32_def)

lemma length_field_of_envelope:
  assumes "length tail = 32"
  shows "take 4 (drop (length (body @ PutUint32 v @ tail) - 36) (body @ PutUint32 v @ tail)) =
           PutUint32 v"
  using assms by (simp add: length_PutUint32)

theorem plain_parse_boundary_witness:
  "decode_plain toy_outside (program False [] []) ([65] @ PutUint32 0 @ replicate 32 0) =
     Inl DataLengthZero \<and>
   decode_plain toy_outside (program False [] []) ([65] @ PutUint32 2 @ replicate 32 0) =
     Inl LengthTooLarge \<and>
   decode_plain toy_outside (program False [] []) ([65] @ PutUint32 1 @ replicate 32 0) =
     Inr [65]"
proof -
  have l: "36 \<le> length ([65 :: byte] @ PutUint32 v @ replicate 32 0)" for v
    by (simp add: length_PutUint32)
  have f: "take 4 (drop (length ([65 :: byte] @ PutUint32 v @ replicate 32 0) - 36)
             ([65] @ PutUint32 v @ replicate 32 0)) = PutUint32 v" for v
    by (rule length_field_of_envelope) simp
  have n: "length ([65 :: byte] @ PutUint32 v @ replicate 32 0) - 36 = 1" for v
    by (simp add: length_PutUint32)
  have h: "\<not> doHash (program False [] [])"
    by (simp add: program_def)
  show ?thesis
    using plain_parse_boundary [OF l f, of 0 toy_outside "program False [] []"]
          plain_parse_boundary [OF l f, of 2 toy_outside "program False [] []"]
          plain_parse_boundary [OF l f, of 1 toy_outside "program False [] []"]
    unfolding n using h by simp
qed

text \<open>
  The claim as stated fails at capacity 36: the length field of a buffer of 36 zero
  bytes equals \<open>capacity - 36 = 0\<close>, and the zero check rejects it.
\<close>

theorem plain_parse_boundary_counterexample:
  "take 4 (drop (length (replicate 36 (0::byte)) - 36) (replicate 36 (0::byte))) = PutUint32 0 \<and>
   unat (0 :: 32 word) = length (replicate 36 (0::byte)) - 36 \<and>
   decode_plain toy_outside (program True [] []) (replicate 36 0) = Inl DataLengthZero"
proof -
  have f: "take 4 (drop (length (replicate 36 (0::byte)) - 36) (replicate 36 (0::byte))) =
             PutUint32 0"
  proof -
    have p0: "PutUint32 0 = replicate 4 0"
      by (simp add: PutUint32_def eval_nat_numeral)
    have r: "replicate 36 (0::byte) = [] @ PutUint32 0 @ replicate 32 0"
      unfolding p0 by (simp add: replicate_add [symmetric])
    show ?thesis
      unfolding r by (rule length_field_of_envelope) simp
  qed
  have "decode_plain toy_outside (program True [] []) (replicate 36 0) = Inl DataLengthZero"
    using decode_plain_field [OF _ f] by simp
  then show ?thesis
    using f by simp
qed

section \<open>The envelope on encode\<close>

lemma copy_at_middle:
  "length pre = pos \<Longrightarrow> length src = length old \<Longrightarrow>
     copy_at (pre @ old @ post) pos src = pre @ src @ post"
  by (simp add: copy_at_def)

lemma length_sum_bytes: "length (sum_bytes h) = 32"
  by (simp add: sum_bytes_def be_bytes_def)

lemma split_buffer:
  assumes "a + 36 \<le> length H"
  shows "H = take a H @ take (length H - 36 - a) (drop a H)
               @ take 4 (drop (length H - 36) H) @ drop (length H - 32) H"
proof -
  let ?b = "length H - 36"
  have "take a H @ take (?b - a) (drop a H) = take ?b H"
    using assms take_add [of a "?b - a" H] by simp
  moreover have "take ?b H @ take 4 (drop ?b H) = take (?b + 4) H"
    by (simp add: take_add)
  moreover have "?b + 4 = length H - 32"
    using assms by simp
  ultimately show ?thesis
    by (metis append.assoc append_take_drop_id)
qed

lemma fill_envelope_eq:
  assumes "length P + 36 \<le> length H"
  shows "fill_envelope L p P H = Inr (envelope_of L (doHash p) H P)"
proof -
  let ?n = "length H"
  let ?mid = "take (?n - 36 - length P) (drop (length P) H)"
  let ?f4 = "take 4 (drop (?n - 36) H)"
  let ?t32 = "drop (?n - 32) H"
  let ?len = "PutUint32 (word_of_nat (length P))"
  have H: "H = take (length P) H @ ?mid @ ?f4 @ ?t32"
    by (rule split_buffer [OF assms])
  have lm: "length ?mid = ?n - 36 - length P" and lf: "length ?f4 = 4" and lt: "length ?t32 = 32"
    using assms by simp_all
  have b1: "copy_at H 0 P = P @ ?mid @ ?f4 @ ?t32"
    using copy_at_middle [of "[]" 0 P "take (length P) H" "?mid @ ?f4 @ ?t32"] assms H
    by simp
  have l1: "length (copy_at H 0 P) = ?n"
    unfolding b1 using assms by simp
  have b2: "copy_at (copy_at H 0 P) (?n - 36) ?len = P @ ?mid @ ?len @ ?t32"
    unfolding b1
    using copy_at_middle [of "P @ ?mid" "?n - 36" ?len ?f4 ?t32] assms
    by (simp add: length_PutUint32)
  have l2: "length (copy_at (copy_at H 0 P) (?n - 36) ?len) = ?n"
    unfolding b2 using assms by (simp add: length_PutUint32)
  have t2: "take (length P) (copy_at (copy_at H 0 P) (?n - 36) ?len) = P"
    unfolding b2 by simp
  have b3: "copy_at (copy_at (copy_at H 0 P) (?n - 36) ?len) (?n - 32) (sum_bytes (Sum256 L P)) =
              P @ ?mid @ ?len @ sum_bytes (Sum256 L P)"
    unfolding b2
    using copy_at_middle [of "P @ ?mid @ ?len" "?n - 32" "sum_bytes (Sum256 L P)" ?t32 "[]"] assms
    by (simp add: length_PutUint32 length_sum_bytes)
  have sp: "int ?n - 32 - 4 = int (?n - 36)" and hp: "int ?n - 32 = int (?n - 32)"
    using assms by simp_all
  have ok: "\<not> int (length P) > int ?n" "\<not> int (?n - 36) < 0"
    using assms by simp_all
  have "fill_envelope L p P H =
          Inr (if doHash p then P @ ?mid @ ?len @ sum_bytes (Sum256 L P)
               else P @ ?mid @ ?len @ ?t32)"
    unfolding fill_envelope_def Let_def HASH_SIZE_def FSIZE_LEN_def
    unfolding l1 sp nat_int of_int_of_nat_eq
    unfolding l2 hp nat_int t2 b3
    unfolding b2
    using ok by (simp only: if_False)
  then show ?thesis
    by (simp add: envelope_of_def)
qed

lemma length_envelope_of:
  "length P + 36 \<le> length H \<Longrightarrow> length (envelope_of L h H P) = length H"
  by (simp add: envelope_of_def length_PutUint32 length_sum_bytes)

lemma encode_envelope_eq:
  assumes "supported im" and "length P < 2 ^ 32"
    and "length P + 36 \<le> Dx im * Dy im * 3 div 8"
    and "if keyFile p \<noteq> []
         then Overhead L = Inr ov \<and> int (length P) + ov + 256 \<le> int (Dx im * Dy im * 3 div 8)
         else ov = 0"
    and "Dx im * Dy im * 3 < 2 ^ 63"
  shows "encode_envelope L p im P =
           Inr (fresh_writer im, ov, envelope_of L (doHash p) (hidden_bytes im) P)"
proof -
  have n: "NewImageByteWriter im = Inr (fresh_writer im)"
    by (rule NewImageByteWriter_fresh [OF assms(1)])
  have lp: "length P + 36 \<le> length (hidden_bytes im)"
    using assms(3) by (simp add: length_hidden_bytes)
  have cap: "Capacity (fresh_writer im) = int (Dx im * Dy im * 3 div 8)"
    by (simp add: Capacity_def capacity_fresh_writer [OF assms(5)])
  have f: "fill_envelope L p P (hidden_bytes im) =
             Inr (envelope_of L (doHash p) (hidden_bytes im) P)"
    by (rule fill_envelope_eq [OF lp])
  show ?thesis
    unfolding encode_envelope_def n GetHiddenBytesFromImage_eq [OF assms(1)]
      Let_def HASH_SIZE_def FSIZE_LEN_def RSA_SIZE_def
    using assms(2-4) by (simp add: cap f split: if_splits)
qed

lemma drop_envelope_of:
  assumes "length P + 36 \<le> length H"
  shows "drop (length H - 36) (envelope_of L h H P) =
           PutUint32 (word_of_nat (length P))
             @ (if h then sum_bytes (Sum256 L P) else drop (length H - 32) H)"
  using assms by (simp add: envelope_of_def)

lemma drop_32_envelope_of:
  assumes "length P + 36 \<le> length H"
  shows "drop (length H - 32) (envelope_of L h H P) =
           (if h then sum_bytes (Sum256 L P) else drop (length H - 32) H)"
  using assms by (simp add: envelope_of_def length_PutUint32)

text \<open>All hidden bits of an image whose pixels have odd R, G and B are set.\<close>

lemma hidden_bytes_uniform_odd:
  assumes "bit r 0" "bit g 0" "bit b 0"
  shows "hidden_bytes (uniform_image cm w h (r, g, b, a)) = replicate (w * h * 3 div 8) 255"
proof -
  have l: "lsb_at (uniform_image cm w h (r, g, b, a)) = (\<lambda>k. True)"
    using assms by (auto simp: lsb_at_def uniform_image_def fun_eq_iff)
  have "packed_byte (\<lambda>k. True) k = 255" for k
    by (simp add: packed_byte_def upt_rec)
  then have "packed_byte (\<lambda>k. True) = (\<lambda>k. 255)"
    by (simp add: fun_eq_iff)
  then show ?thesis
    unfolding hidden_bytes_def l by (simp add: uniform_image_def map_replicate_const)
qed

text \<open>
  C8, as amended. In the buffer a plain encode builds (no key file, a payload of at most
  \<open>capacity - 36\<close> bytes, a carrier whose number of hidden bits fits an \<^verbatim>\<open>int\<close>), the 32
  bytes at offset \<open>capacity - 32\<close> are the hash of the payload when hashing is on; when
  hashing is off they are the 32 bytes the carrier already held there.
\<close>

theorem plain_hash_field:
  assumes "supported im" and "keyFile p = []"
    and "length P + 36 \<le> Dx im * Dy im * 3 div 8" and "length P < 2 ^ 32"
    and "Dx im * Dy im * 3 < 2 ^ 63"
  shows "\<exists>ibw ov env H. encode_envelope L p im P = Inr (ibw, ov, env) \<and>
           GetHiddenBytesFromImage im = Inr H \<and>
           length env = Dx im * Dy im * 3 div 8 \<and>
           drop (length env - 32) env =
             (if doHash p then sum_bytes (Sum256 L P) else drop (length H - 32) H)"
proof -
  have lp: "length P + 36 \<le> length (hidden_bytes im)"
    using assms(3) by (simp add: length_hidden_bytes)
  let ?env = "envelope_of L (doHash p) (hidden_bytes im) P"
  have e: "encode_envelope L p im P = Inr (fresh_writer im, 0, ?env)"
    using assms by (intro encode_envelope_eq) simp_all
  have n: "length ?env = Dx im * Dy im * 3 div 8"
    using length_envelope_of [OF lp] by (simp add: length_hidden_bytes)
  have d: "drop (length ?env - 32) ?env =
             (if doHash p then sum_bytes (Sum256 L P)
              else drop (length (hidden_bytes im) - 32) (hidden_bytes im))"
    using drop_32_envelope_of [OF lp, of L "doHash p"] length_envelope_of [OF lp, of L "doHash p"]
    by simp
  show ?thesis
    using e n d GetHiddenBytesFromImage_eq [OF assms(1)] by blast
qed

theorem plain_hash_field_witness:
  "(\<exists>ibw ov env. encode_envelope toy_outside (program True [] [])
        (uniform_image NRGBAModel 10 10 (255, 255, 255, 255)) [65] = Inr (ibw, ov, env) \<and>
      length env = 37 \<and> drop (length env - 32) env = sum_bytes 65) \<and>
   (\<exists>ibw ov env. encode_envelope toy_outside (program False [] [])
        (uniform_image NRGBAModel 10 10 (255, 255, 255, 255)) [65] = Inr (ibw, ov, env) \<and>
      length env = 37 \<and> drop (length env - 32) env = replicate 32 255)"
proof -
  let ?im = "uniform_image NRGBAModel 10 10 (255, 255, 255, 255)"
  have s: "supported ?im"
    by (simp add: supported_def uniform_image_def)
  have k: "keyFile (program h [] []) = []" for h
    by (simp add: program_def)
  have c: "length [65 :: byte] + 36 \<le> Dx ?im * Dy ?im * 3 div 8"
    by (simp add: uniform_image_def)
  have l: "length [65 :: byte] < 2 ^ 32"
    by simp
  have b: "Dx ?im * Dy ?im * 3 < 2 ^ 63"
    by (simp add: uniform_image_def)
  have H: "GetHiddenBytesFromImage ?im = Inr (replicate 37 255)"
    using GetHiddenBytesFromImage_eq [OF s] hidden_bytes_uniform_odd [of 255 255 255 NRGBAModel 10 10 255]
    by simp
  have n: "Dx ?im * Dy ?im * 3 div 8 = 37"
    by (simp add: uniform_image_def)
  have d: "drop (37 - 32) (replicate 37 (255 :: byte)) = replicate 32 255"
    by simp
  show ?thesis
    using plain_hash_field [OF s k c l b, of toy_outside True]
          plain_hash_field [OF s k c l b, of toy_outside False]
    unfolding H n by (auto simp: program_def toy_outside_def d)
qed

text \<open>
  The claim as stated fails with hashing off: the 32 bytes are present (the buffer has
  \<open>capacity = 37\<close> bytes) and they are not zero on a carrier whose hidden bits are set.
\<close>

theorem plain_hash_field_counterexample:
  "encode_envelope toy_outside (program False [] [])
      (uniform_image NRGBAModel 10 10 (255, 255, 255, 255)) [65] =
     Inr (fresh_writer (uniform_image NRGBAModel 10 10 (255, 255, 255, 255)), 0,
          [65] @ PutUint32 1 @ replicate 32 255) \<and>
   drop (37 - 32) ([65] @ PutUint32 1 @ replicate 32 255) \<noteq> replicate 32 (0 :: byte)"
proof -
  let ?im = "uniform_image NRGBAModel 10 10 (255, 255, 255, 255)"
  have s: "supported ?im"
    by (simp add: supported_def uniform_image_def)
  have H: "hidden_bytes ?im = replicate 37 255"
    using hidden_bytes_uniform_odd [of 255 255 255 NRGBAModel 10 10 255] by simp
  have "encode_envelope toy_outside (program False [] []) ?im [65] =
          Inr (fresh_writer ?im, 0,
               envelope_of toy_outside (doHash (program False [] [])) (hidden_bytes ?im) [65])"
    using s by (intro encode_envelope_eq) (simp_all add: uniform_image_def program_def)
  moreover have "envelope_of toy_outside (doHash (program False [] [])) (hidden_bytes ?im) [65] =
          [65] @ PutUint32 1 @ replicate 32 255"
    unfolding H by (simp add: envelope_of_def program_def)
  moreover have "drop (37 - 32) ([65] @ PutUint32 1 @ replicate 32 255) = replicate 32 (255 :: byte)"
    by (simp add: length_PutUint32)
  moreover have "replicate 32 (255 :: byte) \<noteq> replicate 32 0"
    by (simp add: replicate_eq_replicate)
  ultimately show ?thesis
    by simp
qed

section \<open>The message for RSA\<close>

lemma length_be_bytes: "length (be_bytes n v) = n"
  by (simp add: be_bytes_def)

lemma length_PutUint64: "length (PutUint64 v) = 8"
  by (simp add: PutUint64_def)

lemma length_extension_bytes: "length (copy_at (replicate 16 (0 :: byte)) 0 src) = 16"
  by (simp add: copy_at_def)

lemma prepare_rsaData_eq:
  assumes "length tail = 32"
  shows "prepare_rsaData L data extension (PutUint32 sz @ tail) =
           Inr (Seal L (be_bytes 32 (randKey L)) (be_bytes nonceSize (randNonce L)) data,
                rsaData_of L (be_bytes nonceSize (randNonce L)) extension
                  (PutUint32 (word_of_nat (length
                     (Seal L (be_bytes 32 (randKey L)) (be_bytes nonceSize (randNonce L)) data)))
                   @ tail),
                PutUint32 (word_of_nat (length
                     (Seal L (be_bytes 32 (randKey L)) (be_bytes nonceSize (randNonce L)) data)))
                   @ tail)"
proof -
  have "copy_at (PutUint32 sz @ tail) 0 (PutUint32 v) = PutUint32 v @ tail" for v
    using copy_at_middle [of "[]" 0 "PutUint32 v" "PutUint32 sz" tail]
    by (simp add: length_PutUint32)
  then show ?thesis
    unfolding prepare_rsaData_def Let_def
    by (simp add: length_PutUint32 length_be_bytes)
qed

lemma rsaData_hash_field:
  assumes "length aesNonce = 12" and "length tail = 32"
  shows "length (rsaData_of L aesNonce extension (PutUint32 v @ tail)) = 104"
    and "drop 72 (rsaData_of L aesNonce extension (PutUint32 v @ tail)) = tail"
  using assms
  by (simp_all add: rsaData_of_def length_be_bytes length_PutUint64 length_extension_bytes
        length_PutUint32)

text \<open>
  Nothing but the call of RSA reads the encryption function: the envelope, the message
  for RSA and the shuffle are the same whatever RSA answers.
\<close>

lemma rsa_returns_fields:
  "Sum256 (rsa_returns L t) = Sum256 L" "NewSource (rsa_returns L t) = NewSource L"
  "Intn (rsa_returns L t) = Intn L" "Overhead (rsa_returns L t) = Overhead L"
  "randKey (rsa_returns L t) = randKey L" "randNonce (rsa_returns L t) = randNonce L"
  "now (rsa_returns L t) = now L" "Seal (rsa_returns L t) = Seal L"
  "LoadRSAPublicKey (rsa_returns L t) = LoadRSAPublicKey L"
  "EncryptPKCS1v15 (rsa_returns L t) k m = Inr t"
  by (simp_all add: rsa_returns_def)

lemma Shuffle_loop_rsa_returns:
  "Shuffle_loop (rsa_returns L t) i g swp s = Shuffle_loop L i g swp s"
  by (induction i arbitrary: g s) (simp_all add: rsa_returns_fields split: prod.splits sum.splits)

lemma encode_shuffle_rsa_returns: "encode_shuffle (rsa_returns L t) S xs = encode_shuffle L S xs"
proof -
  have r: "shuffle_round (rsa_returns L t) h = shuffle_round L h" for h
    by (simp add: fun_eq_iff shuffle_round_def Shuffle_def Shuffle_loop_rsa_returns
          rsa_returns_fields cong: sum.case_cong)
  show ?thesis
    by (simp add: encode_shuffle_def shuffle_rounds_def rsa_returns_fields r)
qed

lemma fill_envelope_rsa_returns:
  "fill_envelope (rsa_returns L t) p P H = fill_envelope L p P H"
  by (simp add: fill_envelope_def Let_def rsa_returns_fields)

lemma encode_envelope_rsa_returns:
  "encode_envelope (rsa_returns L t) p im P = encode_envelope L p im P"
  by (simp add: encode_envelope_def fill_envelope_rsa_returns rsa_returns_fields Let_def
        cong: sum.case_cong if_cong)

lemma prepare_rsaData_rsa_returns:
  "prepare_rsaData (rsa_returns L t) d x hl = prepare_rsaData L d x hl"
  by (simp add: prepare_rsaData_def rsaData_of_def rsa_returns_fields Let_def)

text \<open>
  \<^verbatim>\<open>encryptDataWithRSA\<close>, the encryption step and \<^verbatim>\<open>encodeImage\<close> call RSA once, on the
  message that \<open>prepare_rsaData\<close> builds, and use nothing of RSA but its answer.
\<close>

lemma encryptDataWithRSA_call:
  assumes "LoadRSAPublicKey L key = Inr k"
    and "prepare_rsaData L d x hl = Inr (c, m, hl1)"
  shows "encryptDataWithRSA L key d x hl =
           (case EncryptPKCS1v15 L k m of Inl e \<Rightarrow> Inl e
            | Inr t \<Rightarrow> encryptDataWithRSA (rsa_returns L t) key d x hl)"
  by (simp add: encryptDataWithRSA_def assms prepare_rsaData_rsa_returns rsa_returns_fields
        split: sum.splits)

lemma encode_encrypt_call:
  assumes "LoadRSAPublicKey L (keyFile p) = Inr k"
    and "prepare_rsaData L (take (nat sz) buf) x
           (drop (nat (int (length buf) - HASH_SIZE - FSIZE_LEN)) buf) = Inr (c, m, hl1)"
  shows "encode_encrypt L p ov x sz buf =
           (case EncryptPKCS1v15 L k m of Inl e \<Rightarrow> Inl e
            | Inr t \<Rightarrow> encode_encrypt (rsa_returns L t) p ov x sz buf)"
  unfolding encode_encrypt_def Let_def encryptDataWithRSA_call [OF assms]
  by (simp split: sum.splits)

lemma encodeImage_call:
  assumes "keyFile p \<noteq> []" and "LoadRSAPublicKey L (keyFile p) = Inr k"
    and "encode_envelope L p im P = Inr (ibw, ov, buf)"
    and "prepare_rsaData L (take (length P) buf) x
           (drop (nat (int (length buf) - HASH_SIZE - FSIZE_LEN)) buf) = Inr (c, m, hl1)"
  shows "encodeImage L p im x P =
           (case EncryptPKCS1v15 L k m of Inl e \<Rightarrow> Inl e
            | Inr t \<Rightarrow> encodeImage (rsa_returns L t) p im x P)"
proof -
  have pr: "prepare_rsaData L (take (nat (int (length P))) buf) x
           (drop (nat (int (length buf) - HASH_SIZE - FSIZE_LEN)) buf) = Inr (c, m, hl1)"
    using assms(4) by simp
  show ?thesis
    unfolding encodeImage_def encode_envelope_rsa_returns assms(3)
    using assms(1) encode_encrypt_call [OF assms(2) pr, of ov]
    by (simp add: encode_shuffle_rsa_returns split: sum.splits)
qed

lemma encode_rsa_message:
  assumes "supported im" and "keyFile p \<noteq> []" and "Overhead L = Inr ov" and "0 \<le> ov"
    and "int (length P) + ov + 256 \<le> int (Dx im * Dy im * 3 div 8)"
    and "length P < 2 ^ 32" and "Dx im * Dy im * 3 < 2 ^ 63"
    and "LoadRSAPublicKey L (keyFile p) = Inr k"
  shows "\<exists>m. encode_rsaData L p im extension P = Inr m \<and> length m = 104 \<and>
           drop 72 m = (if doHash p then sum_bytes (Sum256 L P)
                        else drop (length (hidden_bytes im) - 32) (hidden_bytes im)) \<and>
           encode_envelope L p im P =
             Inr (fresh_writer im, ov, envelope_of L (doHash p) (hidden_bytes im) P) \<and>
           encode_encrypt L p ov extension (int (length P))
               (envelope_of L (doHash p) (hidden_bytes im) P) =
             (case EncryptPKCS1v15 L k m of Inl e \<Rightarrow> Inl e
              | Inr t \<Rightarrow> encode_encrypt (rsa_returns L t) p ov extension (int (length P))
                           (envelope_of L (doHash p) (hidden_bytes im) P)) \<and>
           encodeImage L p im extension P =
             (case EncryptPKCS1v15 L k m of Inl e \<Rightarrow> Inl e
              | Inr t \<Rightarrow> encodeImage (rsa_returns L t) p im extension P)"
proof -
  let ?H = "hidden_bytes im"
  define tail where
    "tail = (if doHash p then sum_bytes (Sum256 L P) else drop (length ?H - 32) ?H)"
  define env where "env = envelope_of L (doHash p) ?H P"
  have lp: "length P + 36 \<le> length ?H"
    using assms(4,5) by (simp add: length_hidden_bytes)
  have e: "encode_envelope L p im P = Inr (fresh_writer im, ov, env)"
    unfolding env_def
    using assms(1-7) lp by (intro encode_envelope_eq) (simp_all add: length_hidden_bytes)
  have lt: "length tail = 32"
    using lp by (simp add: tail_def length_sum_bytes)
  have sp: "nat (int (length env) - HASH_SIZE - FSIZE_LEN) = length ?H - 36"
    using lp by (simp add: env_def length_envelope_of HASH_SIZE_def FSIZE_LEN_def)
  have d: "drop (length ?H - 36) env = PutUint32 (word_of_nat (length P)) @ tail"
    unfolding env_def tail_def by (rule drop_envelope_of [OF lp])
  have n: "length (be_bytes nonceSize (randNonce L)) = 12"
    by (simp add: length_be_bytes nonceSize_def)
  let ?v = "word_of_nat (length (Seal L (be_bytes 32 (randKey L))
                 (be_bytes nonceSize (randNonce L)) (take (length P) env))) :: 32 word"
  have pr: "prepare_rsaData L (take (length P) env) extension
              (drop (nat (int (length env) - HASH_SIZE - FSIZE_LEN)) env) =
            Inr (Seal L (be_bytes 32 (randKey L)) (be_bytes nonceSize (randNonce L))
                   (take (length P) env),
                 rsaData_of L (be_bytes nonceSize (randNonce L)) extension (PutUint32 ?v @ tail),
                 PutUint32 ?v @ tail)"
    unfolding sp d by (rule prepare_rsaData_eq [OF lt])
  let ?m = "rsaData_of L (be_bytes nonceSize (randNonce L)) extension (PutUint32 ?v @ tail)"
  have r: "encode_rsaData L p im extension P = Inr ?m"
    unfolding encode_rsaData_def e by (simp add: pr)
  have pr': "prepare_rsaData L (take (nat (int (length P))) env) extension
              (drop (nat (int (length env) - HASH_SIZE - FSIZE_LEN)) env) =
            Inr (Seal L (be_bytes 32 (randKey L)) (be_bytes nonceSize (randNonce L))
                   (take (length P) env), ?m, PutUint32 ?v @ tail)"
    using pr by simp
  have 1: "length ?m = 104" and 2: "drop 72 ?m = tail"
    using rsaData_hash_field [OF n lt, of L extension ?v] by simp_all
  have 3: "encode_encrypt L p ov extension (int (length P)) env =
             (case EncryptPKCS1v15 L k ?m of Inl e \<Rightarrow> Inl e
              | Inr t \<Rightarrow> encode_encrypt (rsa_returns L t) p ov extension (int (length P)) env)"
    by (rule encode_encrypt_call [OF assms(8) pr'])
  have 4: "encodeImage L p im extension P =
             (case EncryptPKCS1v15 L k ?m of Inl e \<Rightarrow> Inl e
              | Inr t \<Rightarrow> encodeImage (rsa_returns L t) p im extension P)"
    by (rule encodeImage_call [OF assms(2,8) e pr])
  show ?thesis
    using r 1 2 3 4 e unfolding tail_def env_def by blast
qed


text \<open>
  C5, as amended. For every encode with a key file that loads (the payload and the
  encryption overhead fit the capacity, the carrier's number of hidden bits fits an
  \<^verbatim>\<open>int\<close>), the encryption step and the whole encode hand RSA one message \<open>m\<close> and
  depend on RSA through its answer on \<open>m\<close> alone: if RSA fails on \<open>m\<close> the encode
  fails with that error, and if RSA answers \<open>t\<close> the encode is the one of a library whose
  RSA answers \<open>t\<close> whatever it is given. The message has 104 bytes and its last 32 bytes,
  the hash field, are the hash of the plaintext payload when hashing is on; with the
  hash-disable flag set they are the 32 bytes the carrier held at offset
  \<open>capacity - 32\<close>.
\<close>

theorem encrypted_tail_hash:
  assumes "supported im" and "keyFile p \<noteq> []" and "Overhead L = Inr ov" and "0 \<le> ov"
    and "int (length P) + ov + 256 \<le> int (Dx im * Dy im * 3 div 8)"
    and "length P < 2 ^ 32" and "Dx im * Dy im * 3 < 2 ^ 63"
    and "LoadRSAPublicKey L (keyFile p) = Inr k"
  shows "\<exists>m H ibw env.
           GetHiddenBytesFromImage im = Inr H \<and>
           encode_envelope L p im P = Inr (ibw, ov, env) \<and>
           encode_rsaData L p im extension P = Inr m \<and> length m = 104 \<and>
           drop 72 m = (if doHash p then sum_bytes (Sum256 L P) else drop (length H - 32) H) \<and>
           encode_encrypt L p ov extension (int (length P)) env =
             (case EncryptPKCS1v15 L k m of Inl e \<Rightarrow> Inl e
              | Inr t \<Rightarrow> encode_encrypt (rsa_returns L t) p ov extension (int (length P)) env) \<and>
           encodeImage L p im extension P =
             (case EncryptPKCS1v15 L k m of Inl e \<Rightarrow> Inl e
              | Inr t \<Rightarrow> encodeImage (rsa_returns L t) p im extension P)"
  using encode_rsa_message [OF assms] GetHiddenBytesFromImage_eq [OF assms(1)] by blast

theorem encrypted_tail_hash_witness:
  "(\<exists>m. encode_rsaData toy_outside (program True [] ''key.pem'')
          (uniform_image NRGBAModel 27 27 (255, 255, 255, 255)) ''.txt'' [65] = Inr m \<and>
        length m = 104 \<and> drop 72 m = sum_bytes 65 \<and>
        encodeImage toy_outside (program True [] ''key.pem'')
          (uniform_image NRGBAModel 27 27 (255, 255, 255, 255)) ''.txt'' [65] =
        encodeImage (rsa_returns toy_outside (take 256 (m @ replicate 256 0)))
          (program True [] ''key.pem'')
          (uniform_image NRGBAModel 27 27 (255, 255, 255, 255)) ''.txt'' [65]) \<and>
   (\<exists>m. encode_rsaData toy_outside (program False [] ''key.pem'')
          (uniform_image NRGBAModel 27 27 (255, 255, 255, 255)) ''.txt'' [65] = Inr m \<and>
        length m = 104 \<and> drop 72 m = replicate 32 255 \<and>
        encodeImage toy_outside (program False [] ''key.pem'')
          (uniform_image NRGBAModel 27 27 (255, 255, 255, 255)) ''.txt'' [65] =
        encodeImage (rsa_returns toy_outside (take 256 (m @ replicate 256 0)))
          (program False [] ''key.pem'')
          (uniform_image NRGBAModel 27 27 (255, 255, 255, 255)) ''.txt'' [65])"
proof -
  let ?im = "uniform_image NRGBAModel 27 27 (255, 255, 255, 255)"
  have s: "supported ?im"
    by (simp add: supported_def uniform_image_def)
  have k: "keyFile (program h [] ''key.pem'') \<noteq> []" for h
    by (simp add: program_def)
  have o: "Overhead toy_outside = Inr 16" and z: "(0 :: int) \<le> 16"
    by (simp_all add: toy_outside_def)
  have c: "int (length [65 :: byte]) + 16 + 256 \<le> int (Dx ?im * Dy ?im * 3 div 8)"
    by (simp add: uniform_image_def)
  have l: "length [65 :: byte] < 2 ^ 32"
    by simp
  have b: "Dx ?im * Dy ?im * 3 < 2 ^ 63"
    by (simp add: uniform_image_def)
  have r: "LoadRSAPublicKey toy_outside (keyFile (program h [] ''key.pem'')) = Inr ()" for h
    by (simp add: toy_outside_def)
  have H: "GetHiddenBytesFromImage ?im = Inr (replicate 273 255)"
    using GetHiddenBytesFromImage_eq [OF s]
      hidden_bytes_uniform_odd [of 255 255 255 NRGBAModel 27 27 255]
    by simp
  have d: "drop (273 - 32) (replicate 273 (255 :: byte)) = replicate 32 255"
    by simp
  have t: "EncryptPKCS1v15 toy_outside u m = Inr (take 256 (m @ replicate 256 0))" for u m
    by (simp add: toy_outside_def)
  have h: "doHash (program h [] ''key.pem'') = h" for h
    by (simp add: program_def)
  have q: "sum_bytes (Sum256 toy_outside [65]) = sum_bytes 65"
    by (simp add: toy_outside_def)
  obtain m where "encode_rsaData toy_outside (program True [] ''key.pem'') ?im ''.txt'' [65] = Inr m"
    "length m = 104" "drop 72 m = sum_bytes 65"
    "encodeImage toy_outside (program True [] ''key.pem'') ?im ''.txt'' [65] =
       encodeImage (rsa_returns toy_outside (take 256 (m @ replicate 256 0)))
         (program True [] ''key.pem'') ?im ''.txt'' [65]"
    using encrypted_tail_hash [OF s k o z c l b r, of True "''.txt''"]
    unfolding H t h q by auto
  moreover obtain m' where
    "encode_rsaData toy_outside (program False [] ''key.pem'') ?im ''.txt'' [65] = Inr m'"
    "length m' = 104" "drop 72 m' = replicate 32 255"
    "encodeImage toy_outside (program False [] ''key.pem'') ?im ''.txt'' [65] =
       encodeImage (rsa_returns toy_outside (take 256 (m' @ replicate 256 0)))
         (program False [] ''key.pem'') ?im ''.txt'' [65]"
    using encrypted_tail_hash [OF s k o z c l b r, of False "''.txt''"]
    unfolding H t h by (auto simp: d)
  ultimately show ?thesis
    by blast
qed

text \<open>
  The claim as stated fails with the hash-disable flag set. On a carrier whose hidden
  bits are all set, with a stand-in for RSA that answers its message followed by zeros,
  the buffer after the encryption step is the 17 bytes of ciphertext and then the
  message for RSA as the encode built it: its hash field is 32 bytes \<open>0xFF\<close>, not the
  hash of the payload.
\<close>

theorem encrypted_tail_hash_counterexample:
  "encode_envelope toy_outside (program False [] ''key.pem'')
      (uniform_image NRGBAModel 27 27 (255, 255, 255, 255)) [65] =
     Inr (fresh_writer (uniform_image NRGBAModel 27 27 (255, 255, 255, 255)), 16,
          [65] @ replicate 236 255 @ PutUint32 1 @ replicate 32 255) \<and>
   encode_encrypt toy_outside (program False [] ''key.pem'') 16 ''.txt'' 1
      ([65] @ replicate 236 255 @ PutUint32 1 @ replicate 32 255) =
     Inr ([65] @ replicate 16 0
          @ projr (encode_rsaData toy_outside (program False [] ''key.pem'')
                     (uniform_image NRGBAModel 27 27 (255, 255, 255, 255)) ''.txt'' [65])
          @ replicate 152 0) \<and>
   drop 72 (projr (encode_rsaData toy_outside (program False [] ''key.pem'')
       (uniform_image NRGBAModel 27 27 (255, 255, 255, 255)) ''.txt'' [65])) =
     replicate 32 255 \<and>
   sum_bytes (Sum256 toy_outside [65]) \<noteq> replicate 32 255"
proof -
  let ?im = "uniform_image NRGBAModel 27 27 (255, 255, 255, 255)"
  let ?p = "program False [] ''key.pem''"
  let ?env = "[65] @ replicate 236 255 @ PutUint32 1 @ replicate 32 (255 :: byte)"
  let ?m = "rsaData_of toy_outside (be_bytes nonceSize (randNonce toy_outside)) ''.txt''
              (PutUint32 17 @ replicate 32 (255 :: byte))"
  have s: "supported ?im"
    by (simp add: supported_def uniform_image_def)
  have H: "hidden_bytes ?im = replicate 273 255"
    using hidden_bytes_uniform_odd [of 255 255 255 NRGBAModel 27 27 255] by simp
  have "encode_envelope toy_outside ?p ?im [65] =
          Inr (fresh_writer ?im, 16,
               envelope_of toy_outside (doHash ?p) (hidden_bytes ?im) [65])"
    using s
    by (intro encode_envelope_eq) (simp_all add: uniform_image_def program_def toy_outside_def)
  moreover have "envelope_of toy_outside (doHash ?p) (hidden_bytes ?im) [65] = ?env"
    unfolding H by (simp add: envelope_of_def program_def)
  ultimately have e: "encode_envelope toy_outside ?p ?im [65] = Inr (fresh_writer ?im, 16, ?env)"
    by simp
  have L1: "LoadRSAPublicKey toy_outside (keyFile ?p) = Inr ()"
    and E1: "EncryptPKCS1v15 toy_outside u x = Inr (take 256 (x @ replicate 256 0))"
    and S1: "Seal toy_outside a b d = d @ replicate 16 0" for u x a b d
    by (simp_all add: toy_outside_def)
  have pr: "prepare_rsaData toy_outside [65] ''.txt'' (PutUint32 1 @ replicate 32 255) =
              Inr ([65] @ replicate 16 0, ?m, PutUint32 17 @ replicate 32 255)"
    using prepare_rsaData_eq [of "replicate 32 255" toy_outside "[65]" "''.txt''" 1]
    by (simp add: S1)
  have le: "nat (int (length ?env) - HASH_SIZE - FSIZE_LEN) = 237"
    by (simp add: HASH_SIZE_def FSIZE_LEN_def length_PutUint32)
  have dr: "drop 237 ?env = PutUint32 1 @ replicate 32 255"
    by simp
  have tk: "take (length [65 :: byte]) ?env = [65]" "take (nat 1) ?env = [65]"
    by simp_all
  have lm: "length ?m = 104" and d: "drop 72 ?m = replicate 32 255"
    using rsaData_hash_field [of "be_bytes nonceSize (randNonce toy_outside)" "replicate 32 255"
            toy_outside "''.txt''" 17]
    by (simp_all add: length_be_bytes nonceSize_def)
  have m: "encode_rsaData toy_outside ?p ?im ''.txt'' [65] = Inr ?m"
    unfolding encode_rsaData_def e by (simp only: sum.case prod.case le dr tk pr)
  have enc: "encryptDataWithRSA toy_outside (keyFile ?p) (take (nat 1) ?env) ''.txt''
               (drop (nat (int (length ?env) - HASH_SIZE - FSIZE_LEN)) ?env) =
             Inr ([65] @ replicate 16 0, take 256 (?m @ replicate 256 0),
                  PutUint32 17 @ replicate 32 255)"
    unfolding encryptDataWithRSA_def by (simp only: sum.case prod.case le dr tk pr L1 E1)
  have c: "encode_encrypt toy_outside ?p 16 ''.txt'' 1 ?env =
             Inr ([65] @ replicate 16 0 @ ?m @ replicate 152 0)"
    unfolding encode_encrypt_def Let_def enc
    by (simp add: lm copy_at_def RSA_SIZE_def HASH_SIZE_def FSIZE_LEN_def length_PutUint32)
  have "sum_bytes (Sum256 toy_outside [65]) ! 31 = 65"
    by (simp add: sum_bytes_def be_bytes_def toy_outside_def)
  moreover have "replicate 32 (255 :: byte) ! 31 = 255"
    by simp
  ultimately have n: "sum_bytes (Sum256 toy_outside [65]) \<noteq> replicate 32 255"
    by auto
  show ?thesis
    unfolding e m c using d n by simp
qed

section \<open>Writing bytes into the carrier\<close>

lemma coords_in_range:
  assumes "k < 3 * (Dx im * Dy im)"
  shows "(k div 3) mod Dx im < Dx im" and "(k div 3) div Dx im < Dy im" and "0 < Dx im"
proof -
  show d: "0 < Dx im" using assms by (cases "Dx im") auto
  show "(k div 3) mod Dx im < Dx im" using d by simp
  have "k div 3 < Dx im * Dy im" using assms by auto
  then show "(k div 3) div Dx im < Dy im"
    using d by (simp add: less_mult_imp_div_less mult.commute)
qed

lemma bit_bitEmbed_0: "bit (bitEmbed v bitv) 0 = bitv"
  by (simp add: bitEmbed_def bit_0 even_or_iff even_and_iff)

lemma same_grid_put_bit: "same_grid im (put_bit im k bitv)"
  by (auto simp: same_grid_def put_bit_def Let_def Set_def split: sum.splits)

lemma same_grid_trans: "same_grid a b \<Longrightarrow> same_grid b c \<Longrightarrow> same_grid a c"
  by (simp add: same_grid_def)

lemma same_grid_put_bits: "same_grid im (put_bits im k bs)"
proof (induction bs arbitrary: im k)
  case Nil
  show ?case by (simp add: same_grid_def)
next
  case (Cons b bs)
  show ?case
    using same_grid_trans [OF same_grid_put_bit Cons.IH] by simp
qed

lemma supported_same_grid: "same_grid im im' \<Longrightarrow> supported im \<Longrightarrow> supported im'"
  by (simp add: same_grid_def supported_def)

lemma pixel_eq_iff:
  assumes "0 < (w::nat)"
  shows "(p mod w = q mod w \<and> p div w = q div w) = (p = q)"
  by (metis div_mult_mod_eq)

lemma lsb_at_put_bit:
  assumes "supported im" and "k < 3 * (Dx im * Dy im)"
  shows "lsb_at (put_bit im k bitv) m = (if m = k then bitv else lsb_at im m)"
proof -
  let ?x = "(k div 3) mod Dx im" and ?y = "(k div 3) div Dx im"
  note r = coords_in_range [OF assms(2)]
  obtain r g b a where q: "Pix im ?x ?y = (r, g, b, a)"
    by (cases "Pix im ?x ?y") auto
  have ib: "in_bounds im (int ?x) (int ?y)"
    using r by (simp add: in_bounds_def)
  have k3: "k mod 3 = 0 \<or> k mod 3 = 1 \<or> k mod 3 = 2"
    by presburger
  let ?q' = "if k mod 3 = 0 then (bitEmbed r bitv, g, b, a)
             else if k mod 3 = 1 then (r, bitEmbed g bitv, b, a)
             else (r, g, bitEmbed b bitv, a)"
  have pb: "put_bit im k bitv = im\<lparr>Pix := (Pix im)(?x := (Pix im ?x)(?y := ?q'))\<rparr>"
    using assms(1) k3 ib q unfolding put_bit_def Let_def At_def Set_def supported_def
    by auto
  have dx: "Dx (put_bit im k bitv) = Dx im"
    using same_grid_put_bit [of im k bitv] by (simp add: same_grid_def)
  show ?thesis
  proof (cases "m div 3 = k div 3")
    case True
    then have "m = k \<or> m mod 3 \<noteq> k mod 3"
      by (metis div_mult_mod_eq)
    then show ?thesis
      unfolding lsb_at_def dx using True q k3
      by (auto simp: pb bit_bitEmbed_0)
  next
    case False
    then have ne: "\<not> ((m div 3) mod Dx im = ?x \<and> (m div 3) div Dx im = ?y)"
      using pixel_eq_iff [OF r(3), of "m div 3" "k div 3"] by simp
    have "m \<noteq> k" using False by auto
    then show ?thesis
      unfolding lsb_at_def dx using ne by (auto simp: pb)
  qed
qed

lemma Dx_put_bit: "Dx (put_bit im k bitv) = Dx im"
  using same_grid_put_bit [of im k bitv] by (simp add: same_grid_def)

lemma colorEmbed_total: "c0 \<noteq> OtherColor \<Longrightarrow> \<exists>c. colorEmbed c0 pos bitv = Inr c"
  by (cases c0) auto

lemma wrap_color_supported:
  "cm = RGBAModel \<or> cm = NRGBAModel \<Longrightarrow> wrap_color cm q \<noteq> OtherColor"
  by (cases q) auto

lemma At_supported: "supported im \<Longrightarrow> At im x y \<noteq> OtherColor"
  unfolding At_def supported_def by (simp add: wrap_color_supported)

lemma embed_at_pos:
  assumes "supported im" and "k < 3 * (Dx im * Dy im)"
  shows "embed_at_cursor (at_pos ibw im k) bitv = Inr (at_pos ibw (put_bit im k bitv) k)"
proof -
  let ?x = "int ((k div 3) mod Dx im)" and ?y = "int ((k div 3) div Dx im)"
  have "At im ?x ?y \<noteq> OtherColor"
    using assms(1) At_supported by simp
  then obtain c where c: "colorEmbed (At im ?x ?y) (int (k mod 3)) bitv = Inr c"
    using colorEmbed_total by blast
  have pb: "put_bit im k bitv = Set im ?x ?y c"
    by (simp add: put_bit_def c)
  have dx: "Dx (Set im ?x ?y c) = Dx im"
    using Dx_put_bit [of im k bitv] unfolding pb .
  show ?thesis
    unfolding pb by (simp add: embed_at_cursor_def at_pos_def c dx)
qed

lemma increment_at_pos:
  assumes "k < 3 * (Dx im * Dy im)" and "ibw_w ibw = int (Dx im)" and "ibw_h ibw = int (Dy im)"
  shows "increment (at_pos ibw im k) = (False, at_pos ibw im (Suc k))"
proof -
  note r = coords_in_range [OF assms(1)]
  let ?p = "k div 3"
  have y: "\<not> int (?p div Dx im) \<ge> int (Dy im)"
    using r(2) by simp
  consider "k mod 3 = 0" | "k mod 3 = 1" | "k mod 3 = 2"
    by linarith
  then show ?thesis
  proof cases
    case 1
    then have "Suc k mod 3 = 1" "Suc k div 3 = ?p" by presburger+
    then show ?thesis
      using 1 y assms(2,3) by (simp add: increment_def at_pos_def Let_def)
  next
    case 2
    then have "Suc k mod 3 = 2" "Suc k div 3 = ?p" by presburger+
    then show ?thesis
      using 2 y assms(2,3) by (simp add: increment_def at_pos_def Let_def)
  next
    case 3
    then have s: "Suc k mod 3 = 0" "Suc k div 3 = Suc ?p" by presburger+
    show ?thesis
    proof (cases "Suc (?p mod Dx im) = Dx im")
      case True
      then have "Suc ?p mod Dx im = 0" "Suc ?p div Dx im = Suc (?p div Dx im)"
        by (simp_all add: mod_Suc div_Suc)
      then show ?thesis
        using 3 s y True assms(2,3) by (simp add: increment_def at_pos_def Let_def)
    next
      case False
      then have "Suc ?p mod Dx im = Suc (?p mod Dx im)" "Suc ?p div Dx im = ?p div Dx im"
        by (simp_all add: mod_Suc div_Suc)
      moreover have "\<not> int (?p mod Dx im) + 1 \<ge> int (Dx im)"
        using False r(1) by linarith
      ultimately show ?thesis
        using 3 s y assms(2,3) by (simp add: increment_def at_pos_def Let_def)
    qed
  qed
qed

lemma and_push_bit_neq_0: "((data :: byte) AND 2 ^ i \<noteq> 0) = bit data i"
  by (simp add: and_exp_eq_0_iff_not_bit)

lemma writeByte_loop_at_pos:
  assumes "supported im" and "ibw_w ibw = int (Dx im)" and "ibw_h ibw = int (Dy im)"
  shows "k + length is \<le> 3 * (Dx im * Dy im) \<Longrightarrow>
         writeByte_loop is data (at_pos ibw im k) =
           (None, at_pos ibw (put_bits im k (map (bit data) is)) (k + length is))"
  using assms
proof (induction "is" arbitrary: im k)
  case Nil
  show ?case by simp
next
  case (Cons i "is")
  let ?im1 = "put_bit im k (bit data i)"
  have k: "k < 3 * (Dx im * Dy im)"
    using Cons.prems(1) by simp
  have g: "same_grid im ?im1"
    by (rule same_grid_put_bit)
  then have d: "Dx ?im1 = Dx im" "Dy ?im1 = Dy im"
    by (simp_all add: same_grid_def)
  have e: "embed_at_cursor (at_pos ibw im k) (bit data i) = Inr (at_pos ibw ?im1 k)"
    by (rule embed_at_pos [OF Cons.prems(2) k])
  have i: "increment (at_pos ibw ?im1 k) = (False, at_pos ibw ?im1 (Suc k))"
    using k Cons.prems(3,4) by (intro increment_at_pos) (simp_all add: d)
  have r: "writeByte_loop is data (at_pos ibw ?im1 (Suc k)) =
             (None, at_pos ibw (put_bits ?im1 (Suc k) (map (bit data) is)) (Suc k + length is))"
    using Cons.prems supported_same_grid [OF g] by (intro Cons.IH) (simp_all add: d)
  show ?case
    by (simp add: and_push_bit_neq_0 e i r)
qed

lemma put_bits_append:
  "put_bits im k (xs @ ys) = put_bits (put_bits im k xs) (k + length xs) ys"
  by (induction xs arbitrary: im k) simp_all

lemma bits_of_Cons: "bits_of (b # bs) = map (bit b) [0..<8] @ bits_of bs"
  by (simp add: bits_of_def)

lemma length_bits_of: "length (bits_of bs) = 8 * length bs"
  by (induction bs) (simp_all add: bits_of_Cons, simp add: bits_of_def)

lemma nth_bits_of: "n < 8 * length bs \<Longrightarrow> bits_of bs ! n = bit (bs ! (n div 8)) (n mod 8)"
proof (induction bs arbitrary: n)
  case Nil
  then show ?case by simp
next
  case (Cons b bs)
  show ?case
  proof (cases "n < 8")
    case True
    then show ?thesis
      by (simp add: bits_of_Cons nth_append del: upt_Suc)
  next
    case False
    then have n8: "n = (n - 8) + 8"
      by simp
    have d: "n div 8 = Suc ((n - 8) div 8)"
      using div_add_self2 [of 8 "n - 8"] n8 by simp
    have m: "n mod 8 = (n - 8) mod 8"
      using mod_add_self2 [of "n - 8" 8] n8 by simp
    have "n - 8 < 8 * length bs"
      using Cons.prems False by simp
    from Cons.IH [OF this] show ?thesis
      using False by (simp add: bits_of_Cons nth_append d m del: upt_Suc)
  qed
qed

lemma lsb_at_put_bits:
  assumes "supported im"
  shows "k + length bs \<le> 3 * (Dx im * Dy im) \<Longrightarrow>
         lsb_at (put_bits im k bs) m =
           (if k \<le> m \<and> m < k + length bs then bs ! (m - k) else lsb_at im m)"
  using assms
proof (induction bs arbitrary: im k)
  case Nil
  show ?case by auto
next
  case (Cons b bs)
  let ?im1 = "put_bit im k b"
  have k: "k < 3 * (Dx im * Dy im)"
    using Cons.prems(1) by simp
  have g: "same_grid im ?im1"
    by (rule same_grid_put_bit)
  then have d: "Dx ?im1 = Dx im" "Dy ?im1 = Dy im"
    by (simp_all add: same_grid_def)
  have "lsb_at (put_bits ?im1 (Suc k) bs) m =
          (if Suc k \<le> m \<and> m < Suc k + length bs then bs ! (m - Suc k) else lsb_at ?im1 m)"
    using Cons.prems supported_same_grid [OF g] by (intro Cons.IH) (simp_all add: d)
  then show ?case
    using lsb_at_put_bit [OF Cons.prems(2) k, of b m]
    by (auto simp: nth_Cons' Suc_diff_Suc less_Suc_eq_le)
qed

lemma writeByte_at_pos:
  assumes "supported im" and "ibw_w ibw = int (Dx im)" and "ibw_h ibw = int (Dy im)"
    and "currentByte ibw < capacity ibw" and "k + 8 \<le> 3 * (Dx im * Dy im)"
  shows "writeByte (at_pos ibw im k) data =
           (None, at_pos ibw (put_bits im k (map (bit data) [0..<8])) (k + 8))"
proof -
  have c: "\<not> capacity (at_pos ibw im k) \<le> currentByte (at_pos ibw im k)"
    using assms(4) by (simp add: at_pos_def)
  have l: "k + length [0..<8] = k + 8"
    by (simp only: length_upt diff_zero)
  have "writeByte_loop [0..<8] data (at_pos ibw im k) =
      (None, at_pos ibw (put_bits im k (map (bit data) [0..<8])) (k + length [0..<8]))"
    using assms(5) by (intro writeByte_loop_at_pos [OF assms(1-3)]) (simp only: l)
  then show ?thesis
    unfolding writeByte_def l using c by (simp only: if_False)
qed

lemma Write_loop_at_pos:
  assumes "8 * cap \<le> 3 * (Dx im0 * Dy im0)"
  shows "supported im \<Longrightarrow> same_grid im0 im \<Longrightarrow>
         ibw_w ibw = int (Dx im) \<Longrightarrow> ibw_h ibw = int (Dy im) \<Longrightarrow>
         currentByte ibw = int c \<Longrightarrow> capacity ibw = int cap \<Longrightarrow> c + length bs \<le> cap \<Longrightarrow>
         Write_loop bs i (at_pos ibw im (8 * c)) =
           ((i + int (length bs), None),
            at_pos (ibw\<lparr>currentByte := int (c + length bs)\<rparr>)
              (put_bits im (8 * c) (bits_of bs)) (8 * (c + length bs)))"
proof (induction bs arbitrary: im ibw i c)
  case Nil
  then show ?case
    by (simp add: bits_of_def at_pos_def)
next
  case (Cons b bs)
  let ?im1 = "put_bits im (8 * c) (map (bit b) [0..<8])"
  have g: "same_grid im ?im1"
    by (rule same_grid_put_bits)
  have g0: "same_grid im0 ?im1"
    using same_grid_trans [OF Cons.prems(2) g] .
  have d: "Dx im = Dx im0" "Dy im = Dy im0" "Dx ?im1 = Dx im0" "Dy ?im1 = Dy im0"
    using Cons.prems(2) g0 by (simp_all add: same_grid_def)
  have room: "8 * c + 8 \<le> 3 * (Dx im * Dy im)"
    using Cons.prems(7) assms by (simp add: d)
  have w: "writeByte (at_pos ibw im (8 * c)) b = (None, at_pos ibw ?im1 (8 * c + 8))"
    using Cons.prems room by (intro writeByte_at_pos) simp_all
  let ?ibw1 = "ibw\<lparr>currentByte := int (Suc c)\<rparr>"
  have st: "(at_pos ibw ?im1 (8 * c + 8))\<lparr>currentByte := currentByte (at_pos ibw ?im1 (8 * c + 8)) + 1\<rparr>
              = at_pos ?ibw1 ?im1 (8 * Suc c)"
    using Cons.prems(5)
    by (intro ImageByteWriter.equality) (simp_all add: at_pos_def add.commute)
  have ih: "Write_loop bs (i + 1) (at_pos ?ibw1 ?im1 (8 * Suc c)) =
              ((i + 1 + int (length bs), None),
               at_pos (?ibw1\<lparr>currentByte := int (Suc c + length bs)\<rparr>)
                 (put_bits ?im1 (8 * Suc c) (bits_of bs)) (8 * (Suc c + length bs)))"
    using Cons.prems supported_same_grid [OF g] g0
    by (intro Cons.IH) (simp_all add: d)
  have pa: "put_bits im (8 * c) (bits_of (b # bs)) = put_bits ?im1 (8 * Suc c) (bits_of bs)"
    by (simp add: bits_of_Cons put_bits_append add.commute del: upt_Suc)
  have fin: "?ibw1\<lparr>currentByte := int (Suc c + length bs)\<rparr> =
               ibw\<lparr>currentByte := int (c + length (b # bs))\<rparr>"
    by simp
  have e8: "8 * (Suc c + length bs) = 8 * (c + length (b # bs))"
    and i1: "i + 1 + int (length bs) = i + int (length (b # bs))"
    by simp_all
  have "Write_loop (b # bs) i (at_pos ibw im (8 * c)) =
          Write_loop bs (i + 1) (at_pos ?ibw1 ?im1 (8 * Suc c))"
    by (simp only: Write_loop.simps w prod.case option.case st)
  also have "\<dots> = ((i + 1 + int (length bs), None),
               at_pos (?ibw1\<lparr>currentByte := int (Suc c + length bs)\<rparr>)
                 (put_bits ?im1 (8 * Suc c) (bits_of bs)) (8 * (Suc c + length bs)))"
    by (rule ih)
  also have "\<dots> = ((i + int (length (b # bs)), None),
            at_pos (ibw\<lparr>currentByte := int (c + length (b # bs))\<rparr>)
              (put_bits im (8 * c) (bits_of (b # bs))) (8 * (c + length (b # bs))))"
    by (simp only: pa fin e8 i1)
  finally show ?case .
qed

lemma in_sync_at_pos:
  "in_sync ibw \<Longrightarrow> at_pos ibw (ibw_im ibw) (8 * nat (currentByte ibw)) = ibw"
  by (intro ImageByteWriter.equality) (simp_all add: in_sync_def at_pos_def)

lemma Write_loop_in_sync:
  assumes "in_sync ibw" and "currentByte ibw + int (length bs) \<le> capacity ibw"
  shows "Write_loop bs 0 ibw = ((int (length bs), None), written ibw bs)"
proof -
  let ?im = "ibw_im ibw" and ?c = "nat (currentByte ibw)"
  let ?cap = "Dx ?im * Dy ?im * 3 div 8"
  have cap: "8 * ?cap \<le> 3 * (Dx ?im * Dy ?im)"
    by (simp add: mult.commute)
  have c: "currentByte ibw = int ?c" and k: "capacity ibw = int ?cap"
    using assms(1) by (simp_all add: in_sync_def)
  have fit: "?c + length bs \<le> ?cap"
    using assms(2) c k by linarith
  have "Write_loop bs 0 (at_pos ibw ?im (8 * ?c)) =
          ((0 + int (length bs), None),
           at_pos (ibw\<lparr>currentByte := int (?c + length bs)\<rparr>)
             (put_bits ?im (8 * ?c) (bits_of bs)) (8 * (?c + length bs)))"
    using assms(1) c k fit
    by (intro Write_loop_at_pos [OF cap]) (simp_all add: in_sync_def same_grid_def)
  moreover have "int (?c + length bs) = currentByte ibw + int (length bs)"
    using c by simp
  ultimately show ?thesis
    unfolding written_def in_sync_at_pos [OF assms(1)] by simp
qed

lemma Write_fits:
  assumes "in_sync ibw" and "int (length data) \<le> capacity ibw - currentByte ibw"
  shows "Write ibw data = ((int (length data), None), written ibw data)"
proof -
  have "Write_loop data 0 ibw = ((int (length data), None), written ibw data)"
    using assms by (intro Write_loop_in_sync) simp_all
  then show ?thesis
    unfolding Write_def using assms(2) by simp
qed


lemma written_facts:
  assumes "in_sync ibw" and "currentByte ibw + int (length bs) \<le> capacity ibw"
  shows "in_sync (written ibw bs)"
    and "currentByte (written ibw bs) = currentByte ibw + int (length bs)"
    and "same_grid (ibw_im ibw) (ibw_im (written ibw bs))"
    and "lsb_at (ibw_im (written ibw bs)) m =
           (if 8 * nat (currentByte ibw) \<le> m \<and> m < 8 * (nat (currentByte ibw) + length bs)
            then bit (bs ! ((m - 8 * nat (currentByte ibw)) div 8))
                   ((m - 8 * nat (currentByte ibw)) mod 8)
            else lsb_at (ibw_im ibw) m)"
proof -
  let ?im = "ibw_im ibw" and ?c = "nat (currentByte ibw)"
  let ?im' = "put_bits ?im (8 * ?c) (bits_of bs)"
  have im': "ibw_im (written ibw bs) = ?im'"
    by (simp add: written_def at_pos_def)
  have g: "same_grid ?im ?im'"
    by (rule same_grid_put_bits)
  show "same_grid (ibw_im ibw) (ibw_im (written ibw bs))"
    unfolding im' by (rule g)
  show cb: "currentByte (written ibw bs) = currentByte ibw + int (length bs)"
    by (simp add: written_def at_pos_def)
  have nc: "nat (currentByte ibw + int (length bs)) = ?c + length bs"
    using assms(1) by (simp add: in_sync_def nat_add_distrib)
  show "in_sync (written ibw bs)"
    using assms g supported_same_grid [OF g]
    unfolding in_sync_def cb im' nc
    by (simp add: written_def at_pos_def same_grid_def)
  have s: "supported ?im"
    using assms(1) by (simp add: in_sync_def)
  have "8 * (?c + length bs) \<le> 8 * (Dx ?im * Dy ?im * 3 div 8)"
    using assms by (simp add: in_sync_def) linarith
  also have "\<dots> \<le> 3 * (Dx ?im * Dy ?im)"
    by (simp add: mult.commute)
  finally have room: "8 * ?c + length (bits_of bs) \<le> 3 * (Dx ?im * Dy ?im)"
    by (simp add: length_bits_of)
  show "lsb_at (ibw_im (written ibw bs)) m =
           (if 8 * ?c \<le> m \<and> m < 8 * (?c + length bs)
            then bit (bs ! ((m - 8 * ?c) div 8)) ((m - 8 * ?c) mod 8)
            else lsb_at ?im m)"
    unfolding im' lsb_at_put_bits [OF s room]
    by (auto simp: length_bits_of nth_bits_of)
qed

lemma in_sync_fresh_writer:
  assumes "supported im" and "Dx im * Dy im * 3 < 2 ^ 63"
  shows "in_sync (fresh_writer im)"
proof -
  have "capacity (fresh_writer im) = int (Dx im * Dy im * 3 div 8)"
    by (rule capacity_fresh_writer [OF assms(2)])
  moreover have "ibw_im (fresh_writer im) = im" "currentX (fresh_writer im) = 0"
    "currentY (fresh_writer im) = 0" "currentRGB (fresh_writer im) = 0"
    "currentByte (fresh_writer im) = 0" "ibw_w (fresh_writer im) = int (Dx im)"
    "ibw_h (fresh_writer im) = int (Dy im)"
    by (simp_all add: fresh_writer_def)
  ultimately show ?thesis
    using assms(1) by (simp add: in_sync_def)
qed

lemma written_image_hides:
  assumes "supported im" and "length data = Dx im * Dy im * 3 div 8"
    and "Dx im * Dy im * 3 < 2 ^ 63"
  shows "hidden_bytes (ibw_im (written (fresh_writer im) data)) = data"
proof -
  let ?w = "fresh_writer im"
  let ?im' = "ibw_im (written ?w data)"
  have s: "in_sync ?w"
    by (rule in_sync_fresh_writer [OF assms(1,3)])
  have cb: "currentByte ?w = 0"
    by (simp add: fresh_writer_def)
  have fit: "currentByte ?w + int (length data) \<le> capacity ?w"
    using assms(2) by (simp add: cb capacity_fresh_writer [OF assms(3)])
  have c0: "nat (currentByte ?w) = 0" and im: "ibw_im ?w = im"
    by (simp_all add: fresh_writer_def)
  have g: "same_grid im ?im'"
    using written_facts(3) [OF s fit] unfolding im .
  have l: "lsb_at ?im' m =
             (if m < 8 * length data then bit (data ! (m div 8)) (m mod 8) else lsb_at im m)" for m
    using written_facts(4) [OF s fit, of m] unfolding c0 im by simp
  have "packed_byte (lsb_at ?im') k = data ! k" if "k < length data" for k
  proof (rule bit_eqI)
    fix i assume "possible_bit TYPE(byte) i"
    then have i: "i < 8" by simp
    then have "8 * k + i < 8 * length data"
      using that by simp
    moreover have "(8 * k + i) div 8 = k" "(8 * k + i) mod 8 = i"
      using i by simp_all
    ultimately show "bit (packed_byte (lsb_at ?im') k) i = bit (data ! k) i"
      using i by (simp add: bit_packed_byte l)
  qed
  then have "map (packed_byte (lsb_at ?im')) [0..<length data] = map ((!) data) [0..<length data]"
    by simp
  moreover have "Dx ?im' * Dy ?im' * 3 div 8 = length data"
    using g assms(2) by (simp add: same_grid_def)
  ultimately show ?thesis
    unfolding hidden_bytes_def by (simp add: map_nth)
qed




section \<open>The shuffle and its inverse\<close>

lemma Shuffle_loop_draws:
  "Shuffle_loop L i g swp s = for_each (draws L i g) (\<lambda>ab. swp (fst ab) (snd ab)) s"
  by (induction i arbitrary: g s) (auto split: prod.splits sum.splits)

lemma draws_bounds:
  assumes "rng_ok L"
  shows "ab \<in> set (draws L i g) \<Longrightarrow> 0 < fst ab \<and> fst ab \<le> i \<and> snd ab \<le> fst ab"
proof (induction i arbitrary: g)
  case 0
  then show ?case by simp
next
  case (Suc i)
  obtain j g' where d: "Intn L g (Suc i + 1) = (j, g')"
    by (cases "Intn L g (Suc i + 1)") auto
  have "j < Suc i + 1"
    using assms d unfolding rng_ok_def by (metis fst_conv zero_less_Suc add_Suc_right add.right_neutral add_Suc)
  then show ?case
    using Suc d by (auto split: prod.splits) fastforce
qed

lemma in_range_draws:
  assumes "rng_ok L"
  shows "in_range n (draws L (n - 1) g)"
  unfolding in_range_def
proof
  fix ab assume "ab \<in> set (draws L (n - 1) g)"
  from draws_bounds [OF assms this] show "fst ab < n \<and> snd ab < n"
    by linarith
qed

lemma length_swap_list: "length (swap_list ab xs) = length xs"
  by (simp add: swap_list_def)

lemma length_apply_swaps: "length (apply_swaps sw xs) = length xs"
  unfolding apply_swaps_def by (induction sw arbitrary: xs) (simp_all add: length_swap_list)

lemma for_each_swaps:
  "in_range (length xs) sw \<Longrightarrow>
     for_each sw (\<lambda>ab. swap_elems (fst ab) (snd ab)) xs = Inr (apply_swaps sw xs)"
proof (induction sw arbitrary: xs)
  case Nil
  show ?case by (simp add: apply_swaps_def)
next
  case (Cons ab sw)
  have "swap_elems (fst ab) (snd ab) xs = Inr (swap_list ab xs)"
    using Cons.prems by (simp add: swap_elems_def swap_list_def in_range_def)
  moreover have "in_range (length (swap_list ab xs)) sw"
    using Cons.prems by (simp add: in_range_def length_swap_list)
  ultimately show ?case
    using Cons.IH [of "swap_list ab xs"] by (simp add: apply_swaps_def)
qed

lemma Shuffle_swaps:
  assumes "rng_ok L"
  shows "Shuffle L g (length xs) swap_elems xs = Inr (apply_swaps (draws L (length xs - 1) g) xs)"
  unfolding Shuffle_def Shuffle_loop_draws
  by (rule for_each_swaps [OF in_range_draws [OF assms]])

lemma round_seed_ok: "r < 4 \<Longrightarrow> \<exists>seed. round_seed (sum_bytes h) r = Inr seed"
  by (simp add: round_seed_def slice_def length_sum_bytes Uint64_def)

lemma shuffle_round_eq:
  assumes "rng_ok L" and "r < 4"
  shows "shuffle_round L (sum_bytes (Sum256 L (string_bytes S))) r xs =
           Inr (apply_swaps (round_draws L S (length xs) r) xs)"
proof -
  obtain seed where s: "round_seed (sum_bytes (Sum256 L (string_bytes S))) r = Inr seed"
    using round_seed_ok [OF assms(2)] by blast
  show ?thesis
    unfolding shuffle_round_def round_draws_def s by (simp add: Shuffle_swaps [OF assms(1)])
qed

lemma apply_swaps_append: "apply_swaps (sw @ sw') xs = apply_swaps sw' (apply_swaps sw xs)"
  by (simp add: apply_swaps_def)

lemma for_each_rounds:
  assumes "rng_ok L"
  shows "\<forall>r \<in> set rs. r < 4 \<Longrightarrow>
         for_each rs (shuffle_round L (sum_bytes (Sum256 L (string_bytes S)))) xs =
           Inr (apply_swaps (concat (map (round_draws L S (length xs)) rs)) xs)"
proof (induction rs arbitrary: xs)
  case Nil
  show ?case by (simp add: apply_swaps_def)
next
  case (Cons r rs)
  let ?xs1 = "apply_swaps (round_draws L S (length xs) r) xs"
  have 1: "shuffle_round L (sum_bytes (Sum256 L (string_bytes S))) r xs = Inr ?xs1"
    using Cons.prems by (intro shuffle_round_eq [OF assms]) simp
  have l: "length ?xs1 = length xs"
    by (rule length_apply_swaps)
  have 2: "for_each rs (shuffle_round L (sum_bytes (Sum256 L (string_bytes S)))) ?xs1 =
             Inr (apply_swaps (concat (map (round_draws L S (length xs)) rs)) ?xs1)"
    using Cons.IH [of ?xs1] Cons.prems unfolding l by simp
  show ?case
    by (simp add: 1 2 apply_swaps_append)
qed

lemma shuffle_rounds_eq:
  assumes "rng_ok L"
  shows "shuffle_rounds L S xs = Inr (apply_swaps (all_draws L S (length xs)) xs)"
  unfolding shuffle_rounds_def all_draws_def
  by (rule for_each_rounds [OF assms]) simp

lemma in_range_all_draws:
  assumes "rng_ok L"
  shows "in_range n (all_draws L S n)"
proof -
  have "in_range n (round_draws L S n r)" for r
  proof (cases "round_seed (sum_bytes (Sum256 L (string_bytes S))) r")
    case (Inl e)
    then show ?thesis by (simp add: round_draws_def in_range_def)
  next
    case (Inr seed)
    then show ?thesis
      using in_range_draws [OF assms, of n "NewSource L seed"] by (simp add: round_draws_def)
  qed
  then show ?thesis
    unfolding all_draws_def in_range_def by auto
qed

subsection \<open>The index array\<close>

lemma in_range_Cons: "in_range n (ab # sw) = (fst ab < n \<and> snd ab < n \<and> in_range n sw)"
  by (simp add: in_range_def)

lemma apply_swaps_Cons: "apply_swaps (ab # sw) xs = apply_swaps sw (swap_list ab xs)"
  by (simp add: apply_swaps_def)

lemma set_swap_list:
  "fst ab < length xs \<Longrightarrow> snd ab < length xs \<Longrightarrow> set (swap_list ab xs) = set xs"
  unfolding swap_list_def by (rule set_swap)

lemma distinct_swap_list:
  "fst ab < length xs \<Longrightarrow> snd ab < length xs \<Longrightarrow> distinct (swap_list ab xs) = distinct xs"
  unfolding swap_list_def by (rule distinct_swap)

lemma apply_swaps_perm:
  "in_range (length xs) sw \<Longrightarrow>
     set (apply_swaps sw xs) = set xs \<and> distinct (apply_swaps sw xs) = distinct xs"
proof (induction sw arbitrary: xs)
  case Nil
  show ?case by (simp add: apply_swaps_def)
next
  case (Cons ab sw)
  then have "in_range (length (swap_list ab xs)) sw"
    by (simp add: in_range_Cons length_swap_list)
  from Cons.IH [OF this] show ?case
    using Cons.prems
    by (simp add: apply_swaps_Cons in_range_Cons set_swap_list distinct_swap_list)
qed

lemma swap_list_map:
  assumes "fst ab < length ys" and "snd ab < length ys"
  shows "swap_list ab (map f ys) = map f (swap_list ab ys)"
  using assms unfolding swap_list_def by (simp add: map_update)

lemma apply_swaps_map:
  "in_range (length ys) sw \<Longrightarrow> apply_swaps sw (map f ys) = map f (apply_swaps sw ys)"
proof (induction sw arbitrary: ys)
  case Nil
  show ?case by (simp add: apply_swaps_def)
next
  case (Cons ab sw)
  then have "in_range (length (swap_list ab ys)) sw"
    by (simp add: in_range_Cons length_swap_list)
  from Cons.IH [OF this] show ?case
    using Cons.prems by (simp add: apply_swaps_Cons in_range_Cons swap_list_map)
qed

lemma apply_swaps_via_indexes:
  assumes "in_range (length xs) sw"
  shows "apply_swaps sw xs = map ((!) xs) (apply_swaps sw [0..<length xs])"
proof -
  have "apply_swaps sw (map ((!) xs) [0..<length xs]) =
          map ((!) xs) (apply_swaps sw [0..<length xs])"
    using assms by (intro apply_swaps_map) simp
  then show ?thesis
    by (simp add: map_nth)
qed

subsection \<open>Following the cycles\<close>

lemma finite_moved: "finite (moved ix)"
  unfolding moved_def by simp

lemma unshuffle_inner_returns:
  assumes "unshuffle_inv B s" and "i < length B"
  shows "\<exists>s'. unshuffle_inner i (snd s ! i) s = Some (Inr s') \<and> unshuffle_inv B s' \<and>
           snd s' ! i = i \<and> (\<forall>p < length B. snd s ! p = p \<longrightarrow> snd s' ! p = p)"
  using assms
proof (induction "card (moved (snd s))" arbitrary: s rule: less_induct)
  case less
  obtain d ix where s: "s = (d, ix)"
    by (cases s) auto
  let ?n = "length B"
  let ?o = "ix ! i"
  have inv: "length d = ?n" "length ix = ?n" "distinct ix" "set ix = {..<?n}"
    "\<forall>p < ?n. d ! p = B ! (ix ! p)"
    using less.prems(1) unfolding unshuffle_inv_def s by simp_all
  show ?case
  proof (cases "i = ?o")
    case True
    have "unshuffle_inner i (snd s ! i) s = Some (Inr s)"
      using True by (subst unshuffle_inner.simps) (simp add: s)
    then show ?thesis
      using less.prems(1) True by (auto simp: s)
  next
    case False
    have o: "?o < ?n"
      using inv(2,4) less.prems(2) by (metis lessThan_iff nth_mem)
    define d' where "d' = d[i := d ! ?o, ?o := d ! i]"
    define ix' where "ix' = ix[i := ix ! ?o, ?o := ix ! i]"
    have step: "unshuffle_inner i (snd s ! i) s = unshuffle_inner i (snd (d', ix') ! i) (d', ix')"
      using False o less.prems(2) inv(1,2)
      by (subst unshuffle_inner.simps) (simp add: s d'_def ix'_def Let_def)
    have oo: "ix ! ?o \<noteq> ?o"
      using inv(2,3) False o less.prems(2) by (metis nth_eq_iff_index_eq)
    have ix'o: "ix' ! ?o = ?o"
      using o inv(2) by (simp add: ix'_def)
    have ix'p: "ix' ! p = ix ! p" if "p \<noteq> i" "p \<noteq> ?o" for p
      using that by (simp add: ix'_def)
    have inv': "unshuffle_inv B (d', ix')"
      unfolding unshuffle_inv_def
    proof (intro conjI allI impI)
      show "length (fst (d', ix')) = ?n" "length (snd (d', ix')) = ?n"
        using inv(1,2) by (simp_all add: d'_def ix'_def)
      show "distinct (snd (d', ix'))"
        using distinct_swap [of i ix ?o] inv(2,3) o less.prems(2) by (simp add: ix'_def)
      show "set (snd (d', ix')) = {..<?n}"
        using set_swap [of i ix ?o] inv(2,4) o less.prems(2) by (simp add: ix'_def)
    next
      fix p assume p: "p < ?n"
      show "fst (d', ix') ! p = B ! (snd (d', ix') ! p)"
        using p o less.prems(2) inv(1,2,5)
        by (auto simp: d'_def ix'_def nth_list_update)
    qed
    have sub: "moved ix' \<subseteq> moved ix - {?o}"
    proof
      fix p assume "p \<in> moved ix'"
      then have p: "p < ?n" "ix' ! p \<noteq> p"
        using inv(2) by (simp_all add: moved_def ix'_def)
      have "p \<noteq> ?o" using p(2) ix'o by auto
      moreover have "ix ! p \<noteq> p"
      proof (cases "p = i")
        case True
        then show ?thesis using False by simp
      next
        case False
        then show ?thesis using p(2) ix'p \<open>p \<noteq> ?o\<close> by simp
      qed
      ultimately show "p \<in> moved ix - {?o}"
        using p(1) inv(2) by (simp add: moved_def)
    qed
    have "?o \<in> moved ix"
      using o oo inv(2) by (simp add: moved_def)
    then have "moved ix' \<subset> moved ix"
      using sub by auto
    then have smaller: "card (moved (snd (d', ix'))) < card (moved (snd s))"
      using psubset_card_mono [OF finite_moved] by (simp add: s)
    obtain s' where s': "unshuffle_inner i (snd (d', ix') ! i) (d', ix') = Some (Inr s')"
      "unshuffle_inv B s'" "snd s' ! i = i"
      "\<forall>p < ?n. snd (d', ix') ! p = p \<longrightarrow> snd s' ! p = p"
      using less.hyps [OF smaller inv' less.prems(2)] by blast
    have "snd s' ! p = p" if "p < ?n" "snd s ! p = p" for p
    proof -
      have "p \<noteq> i" "p \<noteq> ?o"
        using that False oo by (auto simp: s)
      then have "ix' ! p = p"
        using ix'p that(2) by (simp add: s)
      then show ?thesis
        using s'(4) that(1) by simp
    qed
    then show ?thesis
      using step s'(1,2,3) by auto
  qed
qed

lemma unshuffle_outer_returns:
  assumes "unshuffle_inv B s" and "\<forall>p < k. snd s ! p = p" and "k \<le> length B"
  shows "\<exists>s'. unshuffle_outer [k..<length B] s = Some (Inr s') \<and> unshuffle_inv B s' \<and>
           (\<forall>p < length B. snd s' ! p = p)"
  using assms
proof (induction "length B - k" arbitrary: k s)
  case 0
  then have "k = length B" by simp
  then show ?case
    using "0.prems" by simp
next
  case (Suc m)
  then have k: "k < length B" by simp
  obtain s1 where s1: "unshuffle_inner k (snd s ! k) s = Some (Inr s1)" "unshuffle_inv B s1"
    "snd s1 ! k = k" "\<forall>p < length B. snd s ! p = p \<longrightarrow> snd s1 ! p = p"
    using unshuffle_inner_returns [OF Suc.prems(1) k] by blast
  have fixed: "\<forall>p < Suc k. snd s1 ! p = p"
    using s1(3,4) Suc.prems(2) k by (auto simp: less_Suc_eq)
  have m: "m = length B - Suc k"
    using Suc.hyps(2) by simp
  obtain s' where s': "unshuffle_outer [Suc k..<length B] s1 = Some (Inr s')"
    "unshuffle_inv B s'" "\<forall>p < length B. snd s' ! p = p"
    using Suc.hyps(1) [OF m s1(2) fixed] k by auto
  have "[k..<length B] = k # [Suc k..<length B]"
    using k by (simp add: upt_conv_Cons)
  then show ?case
    using s1(1) s' by simp
qed

lemma unshuffle_inv_identity:
  assumes "unshuffle_inv B s" and "\<forall>p < length B. snd s ! p = p"
  shows "fst s = B"
  using assms unfolding unshuffle_inv_def by (intro nth_equalityI) simp_all

lemma unshuffle_inv_shuffled:
  assumes "in_range (length B) sw"
  shows "unshuffle_inv B (apply_swaps sw B, apply_swaps sw [0..<length B])"
proof -
  let ?idx = "apply_swaps sw [0..<length B]"
  have p: "set ?idx = {..<length B}" "distinct ?idx"
    using apply_swaps_perm [of "[0..<length B]" sw] assms by (simp_all add: atLeast_upt)
  have l: "length ?idx = length B"
    by (simp add: length_apply_swaps)
  have "apply_swaps sw B ! p = B ! (?idx ! p)" if "p < length B" for p
    using apply_swaps_via_indexes [OF assms] that l by simp
  then show ?thesis
    unfolding unshuffle_inv_def using p l by (simp add: length_apply_swaps)
qed

lemma unshuffle_shuffled:
  assumes "rng_ok L"
  shows "unshuffle L S (apply_swaps (all_draws L S (length B)) B) = Some (Inr B)"
proof -
  let ?sw = "all_draws L S (length B)"
  let ?sh = "apply_swaps ?sw B"
  let ?idx = "apply_swaps ?sw [0..<length B]"
  have r: "in_range (length B) ?sw"
    by (rule in_range_all_draws [OF assms])
  have l: "length ?sh = length B" "length ?idx = length B"
    by (simp_all add: length_apply_swaps)
  have i: "decode_indexes L S (length ?sh) = Inr ?idx"
    unfolding decode_indexes_def l using shuffle_rounds_eq [OF assms, of S "[0..<length B]"]
    by simp
  obtain s' where s': "unshuffle_outer [0..<length B] (?sh, ?idx) = Some (Inr s')"
    "unshuffle_inv B s'" "\<forall>p < length B. snd s' ! p = p"
    using unshuffle_outer_returns [OF unshuffle_inv_shuffled [OF r], of 0] by auto
  have "fst s' = B"
    by (rule unshuffle_inv_identity [OF s'(2,3)])
  then show ?thesis
    unfolding unshuffle_def i using s'(1) l by simp
qed

lemma rng_ok_toy: "rng_ok toy_outside"
  by (simp add: rng_ok_def toy_outside_def)

text \<open>
  C2. For every buffer \<open>B\<close> and every seed string, the encoder's four-round shuffle
  returns a buffer of the same length, and the decoder's unshuffle procedure (the replay
  of the four rounds on the index array, then the cycle-following swaps) terminates on
  it and restores \<open>B\<close> exactly. This holds for every length, so for 0, 1, 2, 37 and
  the capacity. The generator is assumed to keep its contract (a draw is below its
  bound).
\<close>

theorem shuffle_unshuffle_inverse:
  assumes "rng_ok L"
  shows "\<exists>sh. encode_shuffle L S B = Inr sh \<and> length sh = length B \<and>
           unshuffle L S sh = Some (Inr B)"
  unfolding encode_shuffle_def shuffle_rounds_eq [OF assms]
  using unshuffle_shuffled [OF assms, of S B] by (simp add: length_apply_swaps)

theorem shuffle_unshuffle_inverse_witness:
  "rng_ok toy_outside \<and>
   encode_shuffle toy_outside ''d'' [10, 20, 30] = Inr [30, 10, 20] \<and>
   unshuffle toy_outside ''d'' [30, 10, 20] = Some (Inr [10, 20, 30]) \<and>
   unshuffle toy_outside ''d'' [] = Some (Inr [])"
proof -
  have e: "encode_shuffle toy_outside ''d'' [10, 20, 30] = Inr [30, 10, 20]"
    by code_simp
  have n: "encode_shuffle toy_outside ''d'' [] = Inr []"
    by code_simp
  show ?thesis
    using rng_ok_toy e
      shuffle_unshuffle_inverse [OF rng_ok_toy, of "''d''" "[10, 20, 30]"]
      shuffle_unshuffle_inverse [OF rng_ok_toy, of "''d''" "[]"]
    unfolding e n by simp
qed

text \<open>
  C6, as amended. After the decoder has replayed the four rounds on the index array
  \<open>idx[i] = i\<close>, the array is a permutation of the positions and each entry \<open>idx[i]\<close>
  is the position from which the forward shuffle of the data takes the element it
  leaves at position \<open>i\<close>: \<open>shuffled[i] = data[idx[i]]\<close>.
\<close>

theorem index_array_characterization:
  assumes "rng_ok L"
  shows "\<exists>idx sh. decode_indexes L S (length B) = Inr idx \<and> encode_shuffle L S B = Inr sh \<and>
           length idx = length B \<and> distinct idx \<and> set idx = {..<length B} \<and>
           (\<forall>i < length B. sh ! i = B ! (idx ! i))"
proof -
  let ?sw = "all_draws L S (length B)"
  have r: "in_range (length B) ?sw"
    by (rule in_range_all_draws [OF assms])
  have i: "decode_indexes L S (length B) = Inr (apply_swaps ?sw [0..<length B])"
    unfolding decode_indexes_def using shuffle_rounds_eq [OF assms, of S "[0..<length B]"]
    by simp
  have e: "encode_shuffle L S B = Inr (apply_swaps ?sw B)"
    unfolding encode_shuffle_def by (rule shuffle_rounds_eq [OF assms])
  have "unshuffle_inv B (apply_swaps ?sw B, apply_swaps ?sw [0..<length B])"
    by (rule unshuffle_inv_shuffled [OF r])
  then show ?thesis
    unfolding i e unshuffle_inv_def by simp
qed

theorem index_array_characterization_witness:
  "rng_ok toy_outside \<and>
   decode_indexes toy_outside ''d'' (length [10, 20, 30 :: byte]) = Inr [2, 0, 1] \<and>
   encode_shuffle toy_outside ''d'' [10, 20, 30] = Inr [30, 10, 20] \<and>
   [30, 10, 20 :: byte] ! 0 = [10, 20, 30] ! ([2, 0, 1] ! 0) \<and>
   [30, 10, 20 :: byte] ! 1 = [10, 20, 30] ! ([2, 0, 1] ! 1) \<and>
   [30, 10, 20 :: byte] ! 2 = [10, 20, 30] ! ([2, 0, 1] ! 2)"
proof -
  have e: "encode_shuffle toy_outside ''d'' [10, 20, 30] = Inr [30, 10, 20]"
    by code_simp
  have d: "decode_indexes toy_outside ''d'' (length [10, 20, 30 :: byte]) = Inr [2, 0, 1]"
    by code_simp
  show ?thesis
    using rng_ok_toy index_array_characterization [OF rng_ok_toy, of "''d''" "[10, 20, 30]"]
    unfolding e d by simp
qed

text \<open>
  The claim as stated fails: with the index array \<open>[2, 0, 1]\<close> the element at position
  0 would have reached position \<open>idx[0] = 2\<close>, but the forward shuffle of
  \<open>[10, 20, 30]\<close> is \<open>[30, 10, 20]\<close>, where it is at position 1.
\<close>

theorem index_array_characterization_counterexample:
  "decode_indexes toy_outside ''d'' 3 = Inr [2, 0, 1] \<and>
   encode_shuffle toy_outside ''d'' [10, 20, 30] = Inr [30, 10, 20] \<and>
   [30, 10, 20 :: byte] ! ([2, 0, 1] ! 0) \<noteq> [10, 20, 30] ! 0"
proof -
  have e: "encode_shuffle toy_outside ''d'' [10, 20, 30] = Inr [30, 10, 20]"
    by code_simp
  have d: "decode_indexes toy_outside ''d'' 3 = Inr [2, 0, 1]"
    by code_simp
  show ?thesis
    using e d by simp
qed

subsection \<open>The seeds\<close>

lemma seed_bytes:
  assumes "r < 4"
  shows "slice (sum_bytes h) (int r * 8) (int r * 8 + 8) =
           Inr (map (\<lambda>k. ucast (drop_bit (8 * (31 - (8 * r + k))) h)) [0..<8])"
proof -
  have "take 8 (drop (8 * r) [0..<32]) = [8 * r..<8 * r + 8]"
    using assms by (simp add: take_upt)
  moreover have "[8 * r..<8 * r + 8] = map (\<lambda>k. 8 * r + k) [0..<8]"
    using map_add_upt [of "8 * r" 8] by (simp add: add.commute)
  ultimately have "take 8 (drop (8 * r) (map f [0..<32])) = map (\<lambda>k. f (8 * r + k)) [0..<8]"
    for f :: "nat \<Rightarrow> byte"
    by (simp only: drop_map take_map map_map comp_def)
  then have "take 8 (drop (8 * r) (sum_bytes h)) =
               map (\<lambda>k. ucast (drop_bit (8 * (31 - (8 * r + k))) h)) [0..<8]"
    unfolding sum_bytes_def be_bytes_def by simp
  moreover have "nat (int r * 8) = 8 * r" "nat (int r * 8 + 8 - int r * 8) = 8"
    by (simp_all add: nat_mult_distrib)
  ultimately show ?thesis
    using assms unfolding slice_def by (simp add: length_sum_bytes)
qed

lemma bit_seed_part:
  fixes h :: "256 word"
  assumes "r < 4" and "q < 8"
  shows "bit (push_bit (8 * q)
              (ucast (ucast (drop_bit (8 * (31 - (8 * r + (7 - q)))) h) :: byte)) :: 64 word) n =
           (8 * q \<le> n \<and> n < 8 * q + 8 \<and> bit h (64 * (3 - r) + n))"
proof -
  have s: "8 * (31 - (8 * r + (7 - q))) = 64 * (3 - r) + 8 * q"
    using assms by simp
  have "64 * (3 - r) + 8 * q + (n - 8 * q) = 64 * (3 - r) + n" if "8 * q \<le> n"
    using that by simp
  moreover have "n < 64" if "n < 8 * q + 8"
    using that assms(2) by simp
  ultimately show ?thesis
    unfolding s by (auto simp: bit_simps)
qed

lemma round_seed_hash_word:
  assumes "r < 4"
  shows "round_seed (sum_bytes h) r = Inr (hash_word h r)"
proof -
  let ?b = "\<lambda>k. (ucast (drop_bit (8 * (31 - (8 * r + k))) h) :: byte)"
  define X :: "nat \<Rightarrow> 64 word" where "X q = push_bit (8 * q) (ucast (?b (7 - q)))" for q
  have nth: "map ?b [0..<8] ! k = ?b k" if "k < 8" for k
    using that by (simp del: upt_Suc)
  have X: "bit (X q) n = (8 * q \<le> n \<and> n < 8 * q + 8 \<and> bit h (64 * (3 - r) + n))"
    if "q < 8" for q n
    unfolding X_def by (rule bit_seed_part [OF assms that])
  have expr: "(ucast (?b 7) OR push_bit 8 (ucast (?b 6)) OR push_bit 16 (ucast (?b 5))
          OR push_bit 24 (ucast (?b 4)) OR push_bit 32 (ucast (?b 3))
          OR push_bit 40 (ucast (?b 2)) OR push_bit 48 (ucast (?b 1))
          OR push_bit 56 (ucast (?b 0)) :: 64 word) =
        X 0 OR X 1 OR X 2 OR X 3 OR X 4 OR X 5 OR X 6 OR X 7"
    by (simp add: X_def)
  have "X 0 OR X 1 OR X 2 OR X 3 OR X 4 OR X 5 OR X 6 OR X 7 = hash_word h r"
  proof (rule bit_eqI)
    fix n assume "possible_bit TYPE(64 word) n"
    then have n: "n < 64" by simp
    have iv: "(8 * 0 \<le> n \<and> n < 8 * 0 + 8) \<or> (8 * 1 \<le> n \<and> n < 8 * 1 + 8) \<or>
              (8 * 2 \<le> n \<and> n < 8 * 2 + 8) \<or> (8 * 3 \<le> n \<and> n < 8 * 3 + 8) \<or>
              (8 * 4 \<le> n \<and> n < 8 * 4 + 8) \<or> (8 * 5 \<le> n \<and> n < 8 * 5 + 8) \<or>
              (8 * 6 \<le> n \<and> n < 8 * 6 + 8) \<or> (8 * 7 \<le> n \<and> n < 8 * 7 + 8)"
      using n by linarith
    have w: "bit (hash_word h r) n = bit h (64 * (3 - r) + n)"
      using n by (simp add: hash_word_def bit_simps)
    have q: "(0::nat) < 8" "(1::nat) < 8" "(2::nat) < 8" "(3::nat) < 8" "(4::nat) < 8"
      "(5::nat) < 8" "(6::nat) < 8" "(7::nat) < 8"
      by simp_all
    show "bit (X 0 OR X 1 OR X 2 OR X 3 OR X 4 OR X 5 OR X 6 OR X 7) n = bit (hash_word h r) n"
      unfolding bit_or_iff w X [OF q(1)] X [OF q(2)] X [OF q(3)] X [OF q(4)] X [OF q(5)]
        X [OF q(6)] X [OF q(7)] X [OF q(8)]
      using iv by blast
  qed
  then show ?thesis
    unfolding round_seed_def seed_bytes [OF assms] Uint64_def expr [symmetric]
    by (simp add: nth del: upt_Suc)
qed

lemma fst_draws: "map fst (draws L m g) = rev [1..<Suc m]"
proof (induction m arbitrary: g)
  case 0
  show ?case by simp
next
  case (Suc m)
  obtain j g' where d: "Intn L g (Suc (Suc m)) = (j, g')"
    by (cases "Intn L g (Suc (Suc m))") auto
  have u: "[1..<Suc (Suc m)] = [1..<Suc m] @ [Suc m]"
    by simp
  show ?case
    unfolding u using Suc [of g'] by (simp add: d del: upt_Suc)
qed

lemma fst_draws_pass: "map fst (draws L (n - 1) g) = rev [1..<n]"
  by (cases n) (simp_all add: fst_draws del: upt_Suc)

lemma all_draws_rounds:
  "all_draws L S n =
     concat (map (\<lambda>r. draws L (n - 1) (NewSource L (hash_word (Sum256 L (string_bytes S)) r)))
       [0, 1, 2, 3])"
proof -
  have "round_draws L S n r =
          draws L (n - 1) (NewSource L (hash_word (Sum256 L (string_bytes S)) r))"
    if "r < 4" for r
    unfolding round_draws_def round_seed_hash_word [OF that] by simp
  moreover have "[0..<4] = [0, 1, 2, 3]"
    by (simp add: upt_rec)
  ultimately show ?thesis
    unfolding all_draws_def by simp
qed

text \<open>
  Seed derivation and rounds (the part of C7 that a deterministic model states). For
  every seed string the seed of round \<open>r = 0, 1, 2, 3\<close> is the \<open>r\<close>-th 8-byte
  big-endian word of the hash of the seed string. The exchanges of the four rounds are,
  in this order, those of one pass per round with a generator made anew from that
  round's seed; in a pass the index \<open>i\<close> descends from \<open>n - 1\<close> to \<open>1\<close> and each
  \<open>j\<close> drawn lies in \<open>[0, i]\<close>. The encoder applies these exchanges to the buffer
  and the decoder applies the same exchanges to the index array. How the draws are
  distributed over \<open>[0, i]\<close> is a property of the library's generator and is not
  stated: the generator is a parameter, and a draw is a function of its state.
\<close>

theorem seed_derivation_and_rounds:
  assumes "rng_ok L"
  shows "(\<forall>r < 4. round_seed (sum_bytes (Sum256 L (string_bytes S))) r =
                    Inr (hash_word (Sum256 L (string_bytes S)) r)) \<and>
         all_draws L S (length B) =
           concat (map (\<lambda>r. draws L (length B - 1)
                               (NewSource L (hash_word (Sum256 L (string_bytes S)) r)))
                     [0, 1, 2, 3]) \<and>
         (\<forall>g. map fst (draws L (length B - 1) g) = rev [1..<length B] \<and>
              (\<forall>ab \<in> set (draws L (length B - 1) g). snd ab \<le> fst ab)) \<and>
         encode_shuffle L S B = Inr (apply_swaps (all_draws L S (length B)) B) \<and>
         decode_indexes L S (length B) =
           Inr (apply_swaps (all_draws L S (length B)) [0..<length B])"
proof (intro conjI allI impI ballI)
  fix r :: nat assume "r < 4"
  then show "round_seed (sum_bytes (Sum256 L (string_bytes S))) r =
               Inr (hash_word (Sum256 L (string_bytes S)) r)"
    by (rule round_seed_hash_word)
next
  show "all_draws L S (length B) =
          concat (map (\<lambda>r. draws L (length B - 1)
                              (NewSource L (hash_word (Sum256 L (string_bytes S)) r)))
                    [0, 1, 2, 3])"
    by (rule all_draws_rounds)
next
  fix g show "map fst (draws L (length B - 1) g) = rev [1..<length B]"
    by (rule fst_draws_pass)
next
  fix g ab assume "ab \<in> set (draws L (length B - 1) g)"
  from draws_bounds [OF assms this] show "snd ab \<le> fst ab"
    by simp
next
  show "encode_shuffle L S B = Inr (apply_swaps (all_draws L S (length B)) B)"
    unfolding encode_shuffle_def by (rule shuffle_rounds_eq [OF assms])
next
  show "decode_indexes L S (length B) =
          Inr (apply_swaps (all_draws L S (length B)) [0..<length B])"
    unfolding decode_indexes_def using shuffle_rounds_eq [OF assms, of S "[0..<length B]"]
    by simp
qed

theorem seed_derivation_and_rounds_witness:
  "rng_ok toy_outside \<and>
   map (round_seed (sum_bytes (Sum256 toy_outside (string_bytes ''d'')))) [0, 1, 2, 3] =
     [Inr 0, Inr 0, Inr 0, Inr 100] \<and>
   all_draws toy_outside ''d'' (length [10, 20, 30 :: byte]) =
     [(2, 0), (1, 1), (2, 0), (1, 1), (2, 0), (1, 1), (2, 1), (1, 1)] \<and>
   encode_shuffle toy_outside ''d'' [10, 20, 30] = Inr [30, 10, 20] \<and>
   decode_indexes toy_outside ''d'' (length [10, 20, 30 :: byte]) = Inr [2, 0, 1]"
proof -
  have s: "map (round_seed (sum_bytes (Sum256 toy_outside (string_bytes ''d'')))) [0, 1, 2, 3] =
             [Inr 0, Inr 0, Inr 0, Inr 100]"
    by code_simp
  have a: "all_draws toy_outside ''d'' (length [10, 20, 30 :: byte]) =
             [(2, 0), (1, 1), (2, 0), (1, 1), (2, 0), (1, 1), (2, 1), (1, 1)]"
    by code_simp
  have e: "apply_swaps [(2, 0), (1, 1), (2, 0), (1, 1), (2, 0), (1, 1), (2, 1), (1, 1)]
             [10, 20, 30 :: byte] = [30, 10, 20]"
    by code_simp
  have d: "apply_swaps [(2, 0), (1, 1), (2, 0), (1, 1), (2, 0), (1, 1), (2, 1), (1, 1)]
             [0..<length [10, 20, 30 :: byte]] = [2, 0, 1]"
    by code_simp
  show ?thesis
    using rng_ok_toy s a
      seed_derivation_and_rounds [OF rng_ok_toy, of "''d''" "[10, 20, 30]"]
    unfolding a e d by simp
qed

section \<open>The round trip without a key file\<close>

lemma length_shuffled: "length (shuffled L S env) = length env"
  by (simp add: shuffled_def length_apply_swaps)

lemma encodeImage_plain:
  assumes "supported im" and "rng_ok L" and "keyFile p = []"
    and "length P + 36 \<le> Dx im * Dy im * 3 div 8" and "length P < 2 ^ 32"
    and "Dx im * Dy im * 3 < 2 ^ 63"
  shows "\<exists>im'. encodeImage L p im extension P = Inr im' \<and> supported im' \<and>
           GetHiddenBytesFromImage im' =
             Inr (shuffled L (shuffleSeed p) (envelope_of L (doHash p) (hidden_bytes im) P))"
proof -
  let ?env = "envelope_of L (doHash p) (hidden_bytes im) P"
  let ?sh = "shuffled L (shuffleSeed p) ?env"
  let ?w = "fresh_writer im"
  have lp: "length P + 36 \<le> length (hidden_bytes im)"
    using assms(4) by (simp add: length_hidden_bytes)
  have e: "encode_envelope L p im P = Inr (?w, 0, ?env)"
    using assms by (intro encode_envelope_eq) simp_all
  have le: "length ?env = Dx im * Dy im * 3 div 8"
    using length_envelope_of [OF lp] by (simp add: length_hidden_bytes)
  have ls: "length ?sh = Dx im * Dy im * 3 div 8"
    by (simp add: length_shuffled le)
  have s: "(if shuffleSeed p \<noteq> [] then encode_shuffle L (shuffleSeed p) ?env else Inr ?env) =
             Inr ?sh"
    unfolding encode_shuffle_def shuffled_def by (simp add: shuffle_rounds_eq [OF assms(2)])
  have sync: "in_sync ?w"
    by (rule in_sync_fresh_writer [OF assms(1,6)])
  have cb: "currentByte ?w = 0"
    by (simp add: fresh_writer_def)
  have fit: "int (length ?sh) \<le> capacity ?w - currentByte ?w"
    unfolding ls by (simp add: cb capacity_fresh_writer [OF assms(6)])
  have w: "Write ?w ?sh = ((int (length ?sh), None), written ?w ?sh)"
    by (rule Write_fits [OF sync fit])
  have enc: "encodeImage L p im extension P = Inr (ibw_im (written ?w ?sh))"
    unfolding encodeImage_def e using assms(3) by (simp add: s w)
  have fit2: "currentByte ?w + int (length ?sh) \<le> capacity ?w"
    using fit by simp
  have g: "same_grid im (ibw_im (written ?w ?sh))"
    using written_facts(3) [OF sync fit2] by (simp add: fresh_writer_def)
  have sup: "supported (ibw_im (written ?w ?sh))"
    by (rule supported_same_grid [OF g assms(1)])
  have "hidden_bytes (ibw_im (written ?w ?sh)) = ?sh"
    by (rule written_image_hides [OF assms(1) ls assms(6)])
  then show ?thesis
    using enc sup GetHiddenBytesFromImage_eq [OF sup] by simp
qed

lemma decodeImage_plain:
  assumes "GetHiddenBytesFromImage im' = Inr (shuffled L (shuffleSeed q) env)"
    and "rng_ok L" and "keyFile q = []"
  shows "decodeImage L q im' = Some (decode_plain L q env)"
proof (cases "shuffleSeed q = []")
  case True
  then show ?thesis
    unfolding decodeImage_def assms(1) using assms(3) by (simp add: shuffled_def)
next
  case False
  have "unshuffle L (shuffleSeed q) (shuffled L (shuffleSeed q) env) = Some (Inr env)"
    using False unshuffle_shuffled [OF assms(2), of "shuffleSeed q" env] by (simp add: shuffled_def)
  then show ?thesis
    unfolding decodeImage_def assms(1) using assms(3) False by simp
qed

lemma decode_plain_envelope:
  assumes "0 < length P" and "length P + 36 \<le> length H" and "length H - 36 < 2 ^ 32"
    and "doHash q = h"
  shows "decode_plain L q (envelope_of L h H P) = Inr P"
proof -
  let ?mid = "take (length H - 36 - length P) (drop (length P) H)"
  let ?tail = "if h then sum_bytes (Sum256 L P) else drop (length H - 32) H"
  let ?v = "word_of_nat (length P) :: 32 word"
  let ?env = "envelope_of L h H P"
  have env: "?env = (P @ ?mid) @ PutUint32 ?v @ ?tail"
    by (simp add: envelope_of_def)
  have lt: "length ?tail = 32"
    using assms(2) by (simp add: length_sum_bytes)
  have le: "length ?env = length H"
    by (rule length_envelope_of [OF assms(2)])
  have f: "take 4 (drop (length ?env - 36) ?env) = PutUint32 ?v"
    unfolding env by (rule length_field_of_envelope [OF lt])
  have l36: "36 \<le> length ?env"
    using assms(2) le by simp
  have pl: "length P < 2 ^ 32"
    using assms(2,3) by simp
  then have uv: "unat ?v = length P"
    by (simp add: unat_of_nat)
  have v0: "?v \<noteq> 0"
    using uv assms(1) by auto
  have "unat (word_of_nat (length H - 36) :: 32 word) = length H - 36"
    using assms(3) by (simp add: unat_of_nat)
  then have ng: "\<not> ?v > word_of_nat (length ?env - 36)"
    unfolding le using uv assms(2) by (simp add: word_less_nat_alt)
  have sl: "slice ?env 0 (uint ?v) = Inr P"
    unfolding slice_def using uv le assms(2) by (simp add: uint_nat envelope_of_def)
  have d: "drop (length ?env - 32) ?env = ?tail"
    unfolding le by (rule drop_32_envelope_of [OF assms(2)])
  show ?thesis
    unfolding decode_plain_field [OF l36 f] sl d using v0 ng assms(4) by simp
qed

text \<open>
  C1, as amended. For every supported carrier image whose capacity is below
  \<open>2 ^ 32 + 36\<close> and every payload \<open>P\<close> with \<open>1 \<le> len(P) \<le> capacity - 36\<close>: encoding
  \<open>P\<close> without a key file succeeds, and decoding the image it produces, with the same
  shuffle seed (possibly none) and the same hash setting, terminates and emits exactly
  the bytes of \<open>P\<close>. The generator is assumed to keep its contract.
\<close>

theorem plain_round_trip:
  assumes "supported im" and "rng_ok L"
    and "keyFile p = []" and "keyFile q = []"
    and "shuffleSeed q = shuffleSeed p" and "doHash q = doHash p"
    and "0 < length P" and "length P + 36 \<le> Dx im * Dy im * 3 div 8"
    and "Dx im * Dy im * 3 div 8 < 2 ^ 32 + 36"
  shows "\<exists>im'. encodeImage L p im extension P = Inr im' \<and> decodeImage L q im' = Some (Inr P)"
proof -
  let ?H = "hidden_bytes im"
  have pl: "length P < 2 ^ 32"
    using assms(8,9) by simp
  have "Dx im * Dy im * 3 < 8 * (2 ^ 32 + 36)"
    using assms(9) by (simp add: less_mult_imp_div_less div_less_iff_less_mult)
  then have b: "Dx im * Dy im * 3 < 2 ^ 63"
    by simp
  obtain im' where im': "encodeImage L p im extension P = Inr im'"
    "GetHiddenBytesFromImage im' = Inr (shuffled L (shuffleSeed p) (envelope_of L (doHash p) ?H P))"
    using encodeImage_plain [OF assms(1,2,3,8) pl b] by blast
  have "decodeImage L q im' = Some (decode_plain L q (envelope_of L (doHash p) ?H P))"
    using im'(2) assms(2,4,5) by (intro decodeImage_plain) simp_all
  moreover have "decode_plain L q (envelope_of L (doHash p) ?H P) = Inr P"
    using assms(6-9) by (intro decode_plain_envelope) (simp_all add: length_hidden_bytes)
  ultimately show ?thesis
    using im'(1) by simp
qed

theorem plain_round_trip_witness:
  "supported (uniform_image NRGBAModel 10 10 (255, 255, 255, 255)) \<and> rng_ok toy_outside \<and>
   (\<exists>im'. encodeImage toy_outside (program True ''d'' [])
             (uniform_image NRGBAModel 10 10 (255, 255, 255, 255)) ''.bin'' [65] = Inr im' \<and>
          decodeImage toy_outside (program True ''d'' []) im' = Some (Inr [65])) \<and>
   (\<exists>im'. encodeImage toy_outside (program False [] [])
             (uniform_image NRGBAModel 10 10 (255, 255, 255, 255)) ''.bin'' [65] = Inr im' \<and>
          decodeImage toy_outside (program False [] []) im' = Some (Inr [65]))"
proof -
  let ?im = "uniform_image NRGBAModel 10 10 (255, 255, 255, 255)"
  have s: "supported ?im"
    by (simp add: supported_def uniform_image_def)
  have k: "keyFile (program h seed []) = []" for h seed
    by (simp add: program_def)
  have l: "0 < length [65 :: byte]" "length [65 :: byte] + 36 \<le> Dx ?im * Dy ?im * 3 div 8"
    "Dx ?im * Dy ?im * 3 div 8 < 2 ^ 32 + 36"
    by (simp_all add: uniform_image_def)
  show ?thesis
    using s rng_ok_toy
      plain_round_trip [OF s rng_ok_toy k k refl refl l, of True "''d''" "''.bin''"]
      plain_round_trip [OF s rng_ok_toy k k refl refl l, of False "[]" "''.bin''"]
    by blast
qed

text \<open>
  The claim as stated fails for the empty payload, which satisfies
  \<open>len(P) \<le> capacity - 36\<close>: the encoder accepts it and writes the length 0, and the
  decoder's zero-length check rejects the image.
\<close>

theorem plain_round_trip_counterexample:
  "encodeImage toy_outside (program True [] [])
      (uniform_image NRGBAModel 10 10 (255, 255, 255, 255)) ''.bin'' [] =
     Inr (projr (encodeImage toy_outside (program True [] [])
                   (uniform_image NRGBAModel 10 10 (255, 255, 255, 255)) ''.bin'' [])) \<and>
   decodeImage toy_outside (program True [] [])
      (projr (encodeImage toy_outside (program True [] [])
                (uniform_image NRGBAModel 10 10 (255, 255, 255, 255)) ''.bin'' [])) =
     Some (Inl DataLengthZero)"
proof -
  let ?im = "uniform_image NRGBAModel 10 10 (255, 255, 255, 255)"
  let ?p = "program True [] []"
  let ?env = "envelope_of toy_outside (doHash ?p) (hidden_bytes ?im) []"
  have s: "supported ?im"
    by (simp add: supported_def uniform_image_def)
  have k: "keyFile ?p = []"
    by (simp add: program_def)
  have c: "length ([] :: byte list) + 36 \<le> Dx ?im * Dy ?im * 3 div 8"
    by (simp add: uniform_image_def)
  have b: "Dx ?im * Dy ?im * 3 < 2 ^ 63"
    by (simp add: uniform_image_def)
  obtain im' where im': "encodeImage toy_outside ?p ?im ''.bin'' [] = Inr im'"
    "GetHiddenBytesFromImage im' = Inr (shuffled toy_outside (shuffleSeed ?p) ?env)"
    using encodeImage_plain [OF s rng_ok_toy k c _ b] by auto
  have d: "decodeImage toy_outside ?p im' = Some (decode_plain toy_outside ?p ?env)"
    using im'(2) rng_ok_toy k by (intro decodeImage_plain) simp_all
  have lh: "length (hidden_bytes ?im) = 37"
    by (simp add: length_hidden_bytes uniform_image_def)
  have lt: "length (if doHash ?p then sum_bytes (Sum256 toy_outside [])
                    else drop (length (hidden_bytes ?im) - 32) (hidden_bytes ?im)) = 32"
    by (simp add: length_sum_bytes lh)
  have env: "?env = take 1 (hidden_bytes ?im) @ PutUint32 0
               @ (if doHash ?p then sum_bytes (Sum256 toy_outside [])
                  else drop (length (hidden_bytes ?im) - 32) (hidden_bytes ?im))"
    by (simp add: envelope_of_def lh)
  have f: "take 4 (drop (length ?env - 36) ?env) = PutUint32 0"
    unfolding env by (rule length_field_of_envelope [OF lt])
  have l36: "36 \<le> length ?env"
    using length_envelope_of [of "[]" "hidden_bytes ?im" toy_outside "doHash ?p"] lh by simp
  have "decode_plain toy_outside ?p ?env = Inl DataLengthZero"
    unfolding decode_plain_field [OF l36 f] by simp
  then show ?thesis
    using im'(1) d by simp
qed

end
